theory Spec2Isabelle
  imports Main "HOL-Library.AList"
begin

section \<open>The clip catalog of \<open>server/src/lib/files.ts\<close>\<close>

text \<open>
  The class \<open>Files\<close> lists the objects of an S3 bucket, groups the keys by their glob
  (the key without its extension), queues the \<open>.txt\<close> objects for reading, converts
  recordings that have no \<open>.mp3\<close> and finally serves random clips. The embedding below
  follows the file method by method. Strings are lists of characters; a key is the
  sequence of its UTF-8 bytes, which agrees with JavaScript's code units on every
  operation used here (the search for the ASCII character \<open>.\<close> and prefixes up to it).
  Calls of \<open>console.log\<close> and \<open>console.error\<close> are not part of the state and are left out.
\<close>

subsection \<open>JavaScript built-ins\<close>

datatype js_error = TypeError

text \<open>\<open>xs.indexOf(x)\<close>: the first position of \<open>x\<close>, or \<open>-1\<close>.\<close>

fun indexOf :: "'a list \<Rightarrow> 'a \<Rightarrow> int" where
  "indexOf [] x = - 1"
| "indexOf (y # ys) x =
     (if y = x then 0
      else (let i = indexOf ys x in if i = - 1 then - 1 else i + 1))"

text \<open>\<open>xs.lastIndexOf(x)\<close>: the last position of \<open>x\<close>, or \<open>-1\<close>.\<close>

definition lastIndexOf :: "'a list \<Rightarrow> 'a \<Rightarrow> int" where
  "lastIndexOf xs x =
     (let i = indexOf (rev xs) x
      in if i = - 1 then - 1 else int (length xs) - 1 - i)"

text \<open>
  \<open>s.substr(start, len)\<close>: a negative \<open>start\<close> counts from the end, a \<open>start\<close> beyond
  the end is the end, and a \<open>len\<close> of zero or less gives the empty string.
\<close>

definition substr :: "string \<Rightarrow> int \<Rightarrow> int \<Rightarrow> string" where
  "substr s start len =
     (let n = int (length s);
          b = (if start < 0 then max (n + start) 0 else min start n)
      in take (nat len) (drop (nat b) s))"

text \<open>
  Numbers are IEEE doubles. \<open>Math.random()\<close> returns a double in \<open>[0, 1)\<close>; every such
  double is \<open>mantissa / 2 ^ exponent\<close> with \<open>mantissa < 2 ^ 53\<close>, \<open>mantissa < 2 ^ exponent\<close>
  and \<open>exponent \<le> 1074\<close>, and is kept as this pair.
\<close>

record double01 =
  mantissa :: nat
  exponent :: nat

text \<open>The number of binary digits of a natural number.\<close>

fun bitLength :: "nat \<Rightarrow> nat" where
  "bitLength n = (if n = 0 then 0 else Suc (bitLength (n div 2)))"

declare bitLength.simps [simp del]

text \<open>\<open>N / 2 ^ d\<close> rounded to the nearest integer, a tie going to the even one.\<close>

definition roundTiesToEven :: "nat \<Rightarrow> nat \<Rightarrow> nat" where
  "roundTiesToEven N d =
     (let q = N div 2 ^ d; r = N mod 2 ^ d
      in if 2 * r < 2 ^ d then q
         else if 2 ^ d < 2 * r then q + 1
         else if even q then q else q + 1)"

text \<open>
  \<open>Math.floor(x * n)\<close> for a double \<open>x\<close> in \<open>[0, 1)\<close> and an array length \<open>n\<close> (below
  \<open>2 ^ 32\<close>, so exact as a double). The multiplication rounds the exact product
  \<open>mantissa * n / 2 ^ exponent\<close> to 53 significant binary digits, ties to even: of the
  numerator \<open>N = mantissa * n\<close> the lowest \<open>d = bitLength N - 53\<close> digits are rounded
  away. The floor of the rounded product is taken.
\<close>

definition floor_product :: "double01 \<Rightarrow> nat \<Rightarrow> nat" where
  "floor_product x n =
     (let N = mantissa x * n;
          d = bitLength N - 53;
          R = roundTiesToEven N d
      in (R * 2 ^ d) div 2 ^ exponent x)"

text \<open>
  The body of a fetched object is a buffer. The code reads it only through
  \<open>toString()\<close>, so a buffer is kept as the text that \<open>toString()\<close> decodes from it.
\<close>

datatype buffer = Buffer string

fun toString :: "buffer \<Rightarrow> string" where
  "toString (Buffer text) = text"

text \<open>
  A property read \<open>obj[k]\<close> on an object created by \<open>{}\<close> finds an own property, or a
  property inherited from \<open>Object.prototype\<close>, or nothing (\<open>undefined\<close>).
\<close>

datatype 'a property = Own 'a | Inherited | Absent

definition Object_prototype :: "string list" where
  "Object_prototype =
     [''constructor'', ''__defineGetter__'', ''__defineSetter__'', ''hasOwnProperty'',
      ''__lookupGetter__'', ''__lookupSetter__'', ''isPrototypeOf'',
      ''propertyIsEnumerable'', ''toString'', ''valueOf'', ''__proto__'',
      ''toLocaleString'']"

definition get_prop :: "(string \<times> 'a) list \<Rightarrow> string \<Rightarrow> 'a property" where
  "get_prop obj k =
     (case map_of obj k of
        Some v \<Rightarrow> Own v
      | None \<Rightarrow> if k \<in> set Object_prototype then Inherited else Absent)"

text \<open>
  \<open>Object.keys(obj)\<close> enumerates the own properties: first the keys that are array
  indices (canonical decimal numerals below \<open>2^32 - 1\<close>) in ascending numeric order,
  then all other keys in the order of their creation. An object is kept as the list
  of its own properties in creation order.
\<close>

definition isDigit :: "char \<Rightarrow> bool" where
  "isDigit c = (c \<in> set ''0123456789'')"

definition digitsValue :: "string \<Rightarrow> int" where
  "digitsValue s = foldl (\<lambda>n c. 10 * n + (of_char c - 48)) 0 s"

definition isArrayIndex :: "string \<Rightarrow> bool" where
  "isArrayIndex s =
     (s \<noteq> [] \<and> list_all isDigit s \<and> (s = ''0'' \<or> hd s \<noteq> CHR ''0'')
      \<and> digitsValue s < 4294967295)"

definition Object_keys :: "(string \<times> 'a) list \<Rightarrow> string list" where
  "Object_keys obj =
     (let ks = map fst obj
      in sort_key digitsValue (filter isArrayIndex ks)
         @ filter (\<lambda>k. \<not> isArrayIndex k) ks)"

subsection \<open>Constants\<close>

definition BATCH_SIZE :: nat where
  "BATCH_SIZE = 5"

definition MP3_EXT :: string where
  "MP3_EXT = ''.mp3''"

definition CONVERTABLE_EXTS :: "string list" where
  "CONVERTABLE_EXTS = [''.ogg'', ''.m4a'']"

subsection \<open>Path helpers\<close>

text \<open>\<open>getGlob\<close>: \<open>path.substr(0, path.indexOf('.'))\<close>.\<close>

definition getGlob :: "string \<Rightarrow> string" where
  "getGlob path = substr path 0 (indexOf path CHR ''.'')"

text \<open>
  Modelled from the spec: \<open>getFileExt\<close> is imported from \<open>./utility\<close>, which is not
  among the sources. The specification describes its result as the key's file
  extension, lower-cased; the extension is taken to be the final segment of the key
  from its last \<open>.\<close> on, and the empty string when the key has no \<open>.\<close>. Lower-casing
  is modelled on the letters \<open>A\<close> to \<open>Z\<close>.
\<close>

definition toLowerCase_char :: "char \<Rightarrow> char" where
  "toLowerCase_char c =
     (case map_of (zip ''ABCDEFGHIJKLMNOPQRSTUVWXYZ'' ''abcdefghijklmnopqrstuvwxyz'') c of
        Some l \<Rightarrow> l
      | None \<Rightarrow> c)"

definition getFileExt :: "string \<Rightarrow> string" where
  "getFileExt path =
     (let i = lastIndexOf path CHR ''.''
      in if i = - 1 then [] else map toLowerCase_char (drop (nat i) path))"

text \<open>
  The specification's wording of the glob, for comparison with \<open>getGlob\<close>: the key with
  its final extension segment stripped (nothing is left when there is no extension).
\<close>

definition stripFinalExtension :: "string \<Rightarrow> string" where
  "stripFinalExtension path =
     (let i = lastIndexOf path CHR ''.''
      in if i = - 1 then [] else take (nat i) path)"

subsection \<open>The state of a \<open>Files\<close> instance\<close>

text \<open>
  A recording is \<open>{sentence, exts}\<close>: the sentence is \<open>null\<close> until a transcript is
  stored, and \<open>exts\<close> is an array of extensions. \<open>Undefined\<close> is the value of a field read
  on an object that does not have it.
\<close>

datatype js_text = Undefined | Null | Text string

record info =
  sentence :: js_text
  exts :: "string list"

type_synonym catalog = "(string \<times> info) list"

text \<open>
  The fields of the class. The field \<open>s3\<close> is the client of the object store; its
  replies enter the model as events (below), so it carries no state here.
\<close>

record Files =
  initialized :: bool
  files :: catalog
  paths :: "string list"
  mp3s :: "string list"

definition new_Files :: Files where
  "new_Files = \<lparr>initialized = False, files = [], paths = [], mp3s = []\<rparr>"

datatype 'a promise = Pending | Resolved 'a | Rejected string

text \<open>\<open>res\<close> and \<open>rej\<close> settle a promise once; later calls have no effect.\<close>

definition settle :: "'a promise \<Rightarrow> 'a promise \<Rightarrow> 'a promise" where
  "settle p v = (if p = Pending then v else p)"

record item =
  item_path :: string
  item_glob :: string

record job =
  source_glob :: string
  source_ext :: string

subsection \<open>Callbacks and their receiver\<close>

text \<open>
  The callbacks handed to \<open>getObject\<close> in \<open>process\<close> and to \<open>putObject\<close> in \<open>convert\<close>
  are written \<open>function(err, data) {...}\<close>. Inside a \<open>function\<close> expression \<open>this\<close> is
  the receiver chosen by whoever calls it, here the S3 client, which passes its own
  response object: \<open>this.files\<close> is then \<open>undefined\<close>. The callback of \<open>listObjectsV2\<close>
  in \<open>init\<close> and the \<open>forEach\<close> bodies are arrow functions, which keep the \<open>Files\<close>
  instance as \<open>this\<close>. The receiver is explicit in the model, so that both readings of
  a callback can be stated.
\<close>

datatype receiver = Files_instance | S3_response

fun this_files :: "receiver \<Rightarrow> Files \<Rightarrow> catalog option" where
  "this_files Files_instance this = Some (files this)"
| "this_files S3_response this = None"

text \<open>What a callback does besides changing the state: call \<open>cb\<close>, throw, or nothing.\<close>

datatype signal = Cb "string option" | Throw js_error | Silent

subsection \<open>\<open>process\<close>: read a sentence from the store\<close>

text \<open>
  The reply of the store is \<open>Inl err\<close> or \<open>Inr body\<close>, with the buffer \<open>s3Data.Body\<close>.
  An assignment through an inherited property lands on the inherited object and
  leaves the catalog as it is.
\<close>

definition process_callback ::
  "receiver \<Rightarrow> item \<Rightarrow> string + buffer \<Rightarrow> Files \<Rightarrow> signal \<times> Files" where
  "process_callback rcv data reply this =
     (case reply of
        Inl err \<Rightarrow> (Cb (Some err), this)
      | Inr body \<Rightarrow>
          (let sentence = toString body
           in case this_files rcv this of
                None \<Rightarrow> (Throw TypeError, this)
              | Some fs \<Rightarrow>
                  (case get_prop fs (item_glob data) of
                     Own i \<Rightarrow>
                       (Cb None,
                        this\<lparr>files :=
                          AList.update (item_glob data) (i\<lparr>sentence := Text sentence\<rparr>) fs\<rparr>)
                   | Inherited \<Rightarrow> (Cb None, this)
                   | Absent \<Rightarrow> (Throw TypeError, this))))"

text \<open>
  \<open>process\<close> hands the callback to \<open>getObject\<close> of the S3 client, which calls it with
  its response as receiver. (\<open>processBatch\<close>, the worker of the transcript queue, calls
  \<open>process\<close> for every item of a batch through \<open>map\<close> of \<open>../promisify\<close>, which is not
  among the sources; it has no state of its own.)
\<close>

definition process :: "item \<Rightarrow> string + buffer \<Rightarrow> Files \<Rightarrow> signal \<times> Files" where
  "process data reply this = process_callback S3_response data reply this"

subsection \<open>\<open>getMissingMP3s\<close> and \<open>generateMP3List\<close>\<close>

fun getMissingMP3s_forEach ::
  "catalog \<Rightarrow> string list \<Rightarrow> string list \<Rightarrow> js_error + string list" where
  "getMissingMP3s_forEach fs [] missing = Inr missing"
| "getMissingMP3s_forEach fs (path # rest) missing =
     (case get_prop fs path of
        Own i \<Rightarrow>
          getMissingMP3s_forEach fs rest
            (if indexOf (exts i) MP3_EXT = - 1 then missing @ [path] else missing)
      | Inherited \<Rightarrow> Inl TypeError
      | Absent \<Rightarrow> Inl TypeError)"

definition getMissingMP3s :: "Files \<Rightarrow> js_error + string list" where
  "getMissingMP3s this = getMissingMP3s_forEach (files this) (paths this) []"

text \<open>
  \<open>generateMP3List\<close> assigns \<open>this.mp3s\<close>; when a lookup throws, the exception leaves
  the method with the list as far as it was built (\<open>Inl\<close>).
\<close>

fun generateMP3List_forEach :: "string list \<Rightarrow> Files \<Rightarrow> js_error \<times> Files + Files" where
  "generateMP3List_forEach [] this = Inr this"
| "generateMP3List_forEach (glob # rest) this =
     (case get_prop (files this) glob of
        Own i \<Rightarrow>
          generateMP3List_forEach rest
            (if indexOf (exts i) MP3_EXT \<noteq> - 1 then this\<lparr>mp3s := mp3s this @ [glob]\<rparr>
             else this)
      | Inherited \<Rightarrow> Inl (TypeError, this)
      | Absent \<Rightarrow> Inl (TypeError, this))"

definition generateMP3List :: "Files \<Rightarrow> js_error \<times> Files + Files" where
  "generateMP3List this = generateMP3List_forEach (paths this) (this\<lparr>mp3s := []\<rparr>)"

subsection \<open>\<open>convert\<close> and \<open>convertMissingToMP3s\<close>\<close>

text \<open>
  The worker \<open>convert\<close> starts, for every job of its batch, a \<open>getObject\<close> and a \<open>putObject\<close>
  and counts the finished jobs in \<open>finished\<close>. Its two callbacks:
\<close>

definition convert_getObject_callback :: "string option \<Rightarrow> signal" where
  "convert_getObject_callback err = (case err of Some e \<Rightarrow> Cb None | None \<Rightarrow> Silent)"

definition convert_putObject_callback ::
  "receiver \<Rightarrow> string \<Rightarrow> nat \<Rightarrow> string option \<Rightarrow> Files \<times> nat \<Rightarrow> signal \<times> Files \<times> nat" where
  "convert_putObject_callback rcv glob jobs_length err st =
     (case st of (this, finished) \<Rightarrow>
        (case err of
           Some e \<Rightarrow> (Cb None, this, finished)
         | None \<Rightarrow>
             (case this_files rcv this of
                None \<Rightarrow> (Throw TypeError, this, finished)
              | Some fs \<Rightarrow>
                  (case get_prop fs glob of
                     Own i \<Rightarrow>
                       (let this' = this\<lparr>files := AList.update glob (i\<lparr>exts := exts i @ [MP3_EXT]\<rparr>) fs\<rparr>;
                            finished' = finished + 1
                        in (if finished' = jobs_length then Cb None else Silent, this', finished'))
                   | Inherited \<Rightarrow> (Throw TypeError, this, finished)
                   | Absent \<Rightarrow> (Throw TypeError, this, finished)))))"

text \<open>
  The loop that picks the source extension of a missing glob:
  \<open>for (i = 0; i < info.exts.length; i++) if (CONVERTABLE_EXTS.indexOf(info.exts[i]) !== -1) {ext = info.exts[i]; break}\<close>;
  \<open>None\<close> is \<open>ext\<close> left \<open>undefined\<close>.
\<close>

fun convertable_ext :: "string list \<Rightarrow> string option" where
  "convertable_ext [] = None"
| "convertable_ext (e # es) =
     (if indexOf CONVERTABLE_EXTS e \<noteq> - 1 then Some e else convertable_ext es)"

text \<open>\<open>missing.forEach\<close>: push a job when \<open>ext\<close> is truthy (defined and not empty).\<close>

fun push_jobs :: "catalog \<Rightarrow> string list \<Rightarrow> job list \<Rightarrow> js_error \<times> job list + job list" where
  "push_jobs fs [] batches = Inr batches"
| "push_jobs fs (glob # rest) batches =
     (case get_prop fs glob of
        Own i \<Rightarrow>
          (case convertable_ext (exts i) of
             Some ext \<Rightarrow>
               push_jobs fs rest
                 (if ext \<noteq> [] then batches @ [\<lparr>source_glob = glob, source_ext = ext\<rparr>] else batches)
           | None \<Rightarrow> push_jobs fs rest batches)
      | Inherited \<Rightarrow> Inl (TypeError, batches)
      | Absent \<Rightarrow> Inl (TypeError, batches))"

text \<open>
  \<open>convertMissingToMP3s\<close> returns a promise and, unless nothing is missing, a queue
  with the pushed jobs. An exception of \<open>getMissingMP3s\<close> leaves the method; an
  exception inside the executor of \<open>new Promise\<close> rejects the promise.
\<close>

definition convertMissingToMP3s :: "Files \<Rightarrow> js_error + unit promise \<times> job list option" where
  "convertMissingToMP3s this =
     (case getMissingMP3s this of
        Inl e \<Rightarrow> Inl e
      | Inr missing \<Rightarrow>
          if length missing < 1 then Inr (Resolved (), None)
          else
            (case push_jobs (files this) missing [] of
               Inl (e, batches) \<Rightarrow> Inr (Rejected ''TypeError'', Some batches)
             | Inr batches \<Rightarrow> Inr (Pending, Some batches)))"

subsection \<open>\<open>init\<close>\<close>

text \<open>The loop of \<open>init\<close> over \<open>data.Contents\<close>, on the catalog and the transcript queue.\<close>

fun scan ::
  "string list \<Rightarrow> catalog \<times> item list \<Rightarrow> js_error \<times> catalog \<times> item list + catalog \<times> item list" where
  "scan [] (fs, batches) = Inr (fs, batches)"
| "scan (key # contents) (fs, batches) =
     (let glob = getGlob key; ext = getFileExt key
      in if glob = [] then scan contents (fs, batches)
         else
           (let fs1 = (if get_prop fs glob = Absent
                       then AList.update glob \<lparr>sentence = Null, exts = []\<rparr> fs else fs)
            in if ext = ''.txt''
               then scan contents (fs1, batches @ [\<lparr>item_path = key, item_glob = glob\<rparr>])
               else
                 (case get_prop fs1 glob of
                    Own i \<Rightarrow> scan contents (AList.update glob (i\<lparr>exts := exts i @ [ext]\<rparr>) fs1, batches)
                  | Inherited \<Rightarrow> Inl (TypeError, fs1, batches)
                  | Absent \<Rightarrow> Inl (TypeError, fs1, batches))))"

text \<open>
  A configuration of a run of \<open>init\<close>: the instance, whether the listing has replied,
  the transcript items pushed to the queue of \<open>init\<close> whose \<open>getObject\<close> has not replied
  yet, the promise returned by \<open>convertMissingToMP3s\<close> (once it has been called) and
  the jobs pushed to its queue (once it has been created), the batches handed to
  \<open>convert\<close> with their counters \<open>finished\<close>, whether the continuation passed to \<open>then\<close>
  has run, and the promise returned by \<open>init\<close>.
\<close>

record config =
  self :: Files
  listed :: bool
  loader :: "item list"
  conversion :: "unit promise option"
  converter :: "job list option"
  workers :: "(job list \<times> nat) list"
  continued :: bool
  init_promise :: "unit promise"

text \<open>\<open>init()\<close> on a new instance: the listing is requested and the promise is pending.\<close>

definition init :: config where
  "init = \<lparr>self = new_Files, listed = False, loader = [], conversion = None,
           converter = None, workers = [], continued = False, init_promise = Pending\<rparr>"

text \<open>The callback of \<open>listObjectsV2\<close>.\<close>

definition listObjectsV2_callback :: "string + string list \<Rightarrow> config \<Rightarrow> config" where
  "listObjectsV2_callback reply c =
     (case reply of
        Inl err \<Rightarrow> c
      | Inr contents \<Rightarrow>
          (case scan contents (files (self c), loader c) of
             Inl (e, fs, batches) \<Rightarrow> c\<lparr>self := (self c)\<lparr>files := fs\<rparr>, loader := batches\<rparr>
           | Inr (fs, batches) \<Rightarrow>
               (let this = (self c)\<lparr>files := fs, paths := Object_keys fs\<rparr>
                in if length (paths this) = 0
                   then c\<lparr>self := this\<lparr>initialized := True\<rparr>, loader := batches,
                          init_promise := settle (init_promise c) (Resolved ())\<rparr>
                   else
                     (case convertMissingToMP3s this of
                        Inl e \<Rightarrow> c\<lparr>self := this, loader := batches\<rparr>
                      | Inr (p, q) \<Rightarrow>
                          c\<lparr>self := this, loader := batches, conversion := Some p,
                            converter := q\<rparr>))))"

text \<open>The continuation passed to \<open>then\<close> in \<open>init\<close>.\<close>

definition then_callback :: "config \<Rightarrow> config" where
  "then_callback c =
     (case generateMP3List (self c) of
        Inl (e, this) \<Rightarrow> c\<lparr>self := this\<rparr>
      | Inr this \<Rightarrow>
          c\<lparr>self := this\<lparr>initialized := True\<rparr>,
            init_promise := settle (init_promise c) (Resolved ())\<rparr>)"

text \<open>
  What happens after \<open>init()\<close> has returned is driven by events: the reply to the
  listing, the reply to a \<open>getObject\<close> of a transcript, the conversion queue handing a
  batch to \<open>convert\<close>, the replies to the \<open>getObject\<close> and \<open>putObject\<close> of a job of a
  batch, the \<open>drain\<close> and \<open>error\<close> events of the conversion queue, and the run of the
  continuation once the conversion promise is resolved. The queue library is not part
  of the sources: its events may come at any time after the queue exists. An event
  that cannot occur in a configuration leaves it unchanged. The receiver with which
  the S3 client calls the \<open>function\<close> callbacks of \<open>process\<close> and \<open>convert\<close> is a
  parameter of a run; the client passes its response, \<open>S3_response\<close>. What is proved
  of all runs below holds for either receiver.
\<close>

datatype event =
    ListObjects "string + string list"
  | GetObject_sentence item "string + buffer"
  | Convert "job list"
  | GetObject_audio "string option"
  | PutObject nat job "string option"
  | Drain
  | Queue_error string
  | Then

fun step :: "receiver \<Rightarrow> event \<Rightarrow> config \<Rightarrow> config" where
  "step rcv (ListObjects reply) c =
     (if listed c then c else listObjectsV2_callback reply (c\<lparr>listed := True\<rparr>))"
| "step rcv (GetObject_sentence data reply) c =
     (if data \<in> set (loader c)
      then c\<lparr>self := snd (process_callback rcv data reply (self c)),
             loader := remove1 data (loader c)\<rparr>
      else c)"
| "step rcv (Convert jobs) c =
     (case converter c of
        Some q \<Rightarrow> if jobs \<noteq> [] \<and> set jobs \<subseteq> set q then c\<lparr>workers := workers c @ [(jobs, 0)]\<rparr> else c
      | None \<Rightarrow> c)"
| "step rcv (GetObject_audio err) c = c"
| "step rcv (PutObject w j err) c =
     (if w < length (workers c) \<and> j \<in> set (fst (workers c ! w))
      then
        (case workers c ! w of (jobs, finished) \<Rightarrow>
           (case convert_putObject_callback rcv (source_glob j) (length jobs) err
                   (self c, finished) of
              (sig, this, finished') \<Rightarrow>
                c\<lparr>self := this, workers := (workers c)[w := (jobs, finished')]\<rparr>))
      else c)"
| "step rcv Drain c =
     (case (converter c, conversion c) of
        (Some q, Some p) \<Rightarrow> c\<lparr>conversion := Some (settle p (Resolved ()))\<rparr>
      | _ \<Rightarrow> c)"
| "step rcv (Queue_error err) c =
     (case (converter c, conversion c) of
        (Some q, Some p) \<Rightarrow> c\<lparr>conversion := Some (settle p (Rejected err))\<rparr>
      | _ \<Rightarrow> c)"
| "step rcv Then c =
     (if conversion c = Some (Resolved ()) \<and> \<not> continued c
      then then_callback (c\<lparr>continued := True\<rparr>) else c)"

fun run :: "receiver \<Rightarrow> event list \<Rightarrow> config \<Rightarrow> config" where
  "run rcv [] c = c"
| "run rcv (e # es) c = run rcv es (step rcv e c)"

subsection \<open>\<open>getRandomClip\<close>\<close>

text \<open>
  \<open>random\<close> is the value of \<open>Math.random()\<close>, a double in \<open>[0, 1)\<close>, and the index is
  \<open>Math.floor(Math.random() * items.length)\<close>. An index outside the array reads
  \<open>undefined\<close>, which becomes the string \<open>undefined\<close> in the concatenation and in the
  property read. The method returns a promise, or throws; it is given with the state
  it leaves.
\<close>

definition getRandomClip ::
  "double01 \<Rightarrow> Files \<Rightarrow> (js_error + (string \<times> js_text) promise) \<times> Files" where
  "getRandomClip random this =
     (if \<not> initialized this then (Inr (Rejected ''Files not init.''), this)
      else if length (mp3s this) = 0 then (Inr (Rejected ''No files.''), this)
      else
        (let items = mp3s this;
             n = floor_product random (length items);
             glob = (if n < length items then items ! n else ''undefined'');
             key = glob @ MP3_EXT
         in case get_prop (files this) glob of
              Own i \<Rightarrow> (Inr (Resolved (key, sentence i)), this)
            | Inherited \<Rightarrow> (Inr (Resolved (key, Undefined)), this)
            | Absent \<Rightarrow> (Inl TypeError, this)))"

subsection \<open>Auxiliary notions for the statements\<close>

text \<open>
  The extensions recorded for a glob (none when the catalog has no entry), whether
  they contain \<open>.mp3\<close>, and the job that the first convertible extension of a glob
  gives, if there is one.
\<close>

definition exts_of :: "catalog \<Rightarrow> string \<Rightarrow> string list" where
  "exts_of fs glob = (case map_of fs glob of Some i \<Rightarrow> exts i | None \<Rightarrow> [])"

definition has_mp3 :: "catalog \<Rightarrow> string \<Rightarrow> bool" where
  "has_mp3 fs glob = (MP3_EXT \<in> set (exts_of fs glob))"

definition job_for :: "catalog \<Rightarrow> string \<Rightarrow> job option" where
  "job_for fs glob =
     map_option (\<lambda>e. \<lparr>source_glob = glob, source_ext = e\<rparr>)
       (find (\<lambda>e. e \<in> set CONVERTABLE_EXTS) (exts_of fs glob))"

text \<open>
  The instance at the end of the loop of \<open>init\<close>, when the paths have been assigned,
  and the reply of the first listing event of a run (the one that \<open>init\<close> receives).
\<close>

definition post_scan :: "catalog \<Rightarrow> Files" where
  "post_scan fs = new_Files\<lparr>files := fs, paths := Object_keys fs\<rparr>"

fun first_listing :: "event list \<Rightarrow> (string + string list) option" where
  "first_listing [] = None"
| "first_listing (ListObjects reply # es) = Some reply"
| "first_listing (e # es) = first_listing es"

text \<open>
  The specification's wording of the choice of a source extension, for comparison
  with \<open>convertable_ext\<close>: the allow-list is scanned in its priority order, \<open>.ogg\<close>
  before \<open>.m4a\<close>, and the first extension that the recording has is taken.
\<close>

definition priority_ext :: "string list \<Rightarrow> string option" where
  "priority_ext es = find (\<lambda>e. e \<in> set es) CONVERTABLE_EXTS"

text \<open>
  What holds in every configuration of a run: before the listing has replied nothing
  has happened; the paths are keys of the catalog and the canonical list is part of
  the paths; the flag \<open>initialized\<close> is set exactly when the promise of \<open>init\<close> is
  resolved, and that promise is never rejected; the continuation runs only on a
  resolved conversion; the flag is set only by the continuation or on an empty scan.
\<close>

definition invariant :: "config \<Rightarrow> bool" where
  "invariant c \<longleftrightarrow>
     (\<not> listed c \<longrightarrow>
        self c = new_Files \<and> loader c = [] \<and> conversion c = None \<and> converter c = None
        \<and> workers c = [] \<and> \<not> continued c \<and> init_promise c = Pending)
     \<and> set (paths (self c)) \<subseteq> fst ` set (files (self c))
     \<and> set (mp3s (self c)) \<subseteq> set (paths (self c))
     \<and> (initialized (self c) \<longleftrightarrow> init_promise c = Resolved ())
     \<and> (init_promise c = Pending \<or> init_promise c = Resolved ())
     \<and> (continued c \<longrightarrow> conversion c = Some (Resolved ()))
     \<and> (initialized (self c) \<longrightarrow> paths (self c) = [] \<or> continued c)"

section \<open>Properties\<close>

subsection \<open>Built-ins\<close>

lemma indexOf_ge: "- 1 \<le> indexOf xs x"
  by (induction xs) (auto simp: Let_def)

lemma indexOf_absent: "indexOf xs x = - 1 \<longleftrightarrow> x \<notin> set xs"
proof (induction xs)
  case Nil
  show ?case by simp
next
  case (Cons y ys)
  have "- 1 \<le> indexOf ys x" by (rule indexOf_ge)
  with Cons show ?case by (auto simp: Let_def)
qed

lemma take_indexOf:
  "x \<in> set xs \<Longrightarrow> take (nat (indexOf xs x)) xs = takeWhile (\<lambda>y. y \<noteq> x) xs"
proof (induction xs)
  case Nil
  then show ?case by simp
next
  case (Cons y ys)
  show ?case
  proof (cases "y = x")
    case True
    then show ?thesis by simp
  next
    case False
    with Cons.prems have mem: "x \<in> set ys" by simp
    then have "indexOf ys x \<noteq> - 1" by (simp add: indexOf_absent)
    moreover have "- 1 \<le> indexOf ys x" by (rule indexOf_ge)
    ultimately have "0 \<le> indexOf ys x" by arith
    then have "nat (indexOf ys x + 1) = Suc (nat (indexOf ys x))" by arith
    with Cons.IH [OF mem] False \<open>indexOf ys x \<noteq> - 1\<close> show ?thesis
      by (simp add: Let_def)
  qed
qed

text \<open>A key without any \<open>.\<close> (a directory marker) has the empty glob.\<close>

lemma getGlob_no_dot: "CHR ''.'' \<notin> set path \<Longrightarrow> getGlob path = []"
proof -
  assume "CHR ''.'' \<notin> set path"
  then have "indexOf path CHR ''.'' = - 1" by (simp add: indexOf_absent)
  then show ?thesis by (simp add: getGlob_def substr_def)
qed

lemma getGlob_dot:
  "CHR ''.'' \<in> set path \<Longrightarrow> getGlob path = takeWhile (\<lambda>c. c \<noteq> CHR ''.'') path"
  by (simp add: getGlob_def substr_def Let_def take_indexOf)

text \<open>Two keys that differ only in what follows a common \<open>base.\<close> have the same glob.\<close>

lemma getGlob_same_base: "getGlob (base @ CHR ''.'' # e1) = getGlob (base @ CHR ''.'' # e2)"
proof (cases "CHR ''.'' \<in> set base")
  case True
  then show ?thesis by (simp add: getGlob_dot takeWhile_append1)
next
  case False
  then have "\<And>e. takeWhile (\<lambda>c. c \<noteq> CHR ''.'') (base @ CHR ''.'' # e) = base"
    by (induction base) auto
  then show ?thesis by (simp add: getGlob_dot)
qed

subsection \<open>Doubles\<close>

lemma bitLength_lower: "0 < n \<Longrightarrow> 2 ^ (bitLength n - 1) \<le> n"
proof (induction n rule: bitLength.induct)
  case (1 n)
  show ?case
  proof (cases "n div 2 = 0")
    case True
    with "1.prems" have "n = 1" by arith
    then show ?thesis by (simp add: bitLength.simps [of "Suc 0"] bitLength.simps [of 0])
  next
    case False
    with "1.prems" have ih: "2 ^ (bitLength (n div 2) - 1) \<le> n div 2"
      using "1.IH" by simp
    from False have pos: "0 < bitLength (n div 2)"
      by (simp add: bitLength.simps [of "n div 2"])
    from "1.prems" have "bitLength n = Suc (bitLength (n div 2))"
      by (simp add: bitLength.simps [of n])
    then have "(2::nat) ^ (bitLength n - 1) = 2 * 2 ^ (bitLength (n div 2) - 1)"
      using pos by (cases "bitLength (n div 2)") simp_all
    also have "\<dots> \<le> 2 * (n div 2)" using ih by simp
    also have "\<dots> \<le> n" by simp
    finally show ?thesis .
  qed
qed

lemma round_upper: "roundTiesToEven N d * 2 ^ d \<le> N + 2 ^ d div 2"
proof -
  define q where "q = N div 2 ^ d"
  define r where "r = N mod 2 ^ d"
  have N: "N = q * 2 ^ d + r" unfolding q_def r_def by (rule div_mult_mod_eq [symmetric])
  show ?thesis
  proof (cases "2 * r < 2 ^ d")
    case True
    then have "roundTiesToEven N d = q"
      by (simp add: roundTiesToEven_def q_def r_def Let_def)
    with N show ?thesis by simp
  next
    case False
    then have "roundTiesToEven N d \<le> q + 1"
      by (simp add: roundTiesToEven_def q_def r_def Let_def)
    then have "roundTiesToEven N d * 2 ^ d \<le> (q + 1) * 2 ^ d"
      by (rule mult_le_mono1)
    also have "\<dots> = q * 2 ^ d + 2 ^ d" by (simp add: algebra_simps)
    also from False have "\<dots> \<le> q * 2 ^ d + r + 2 ^ d div 2" by arith
    finally show ?thesis using N by simp
  qed
qed

lemma bitLength_numeral:
  "bitLength 0 = 0"
  "bitLength (Suc 0) = 1"
  "bitLength 1 = 1"
  "bitLength (numeral (num.Bit0 w)) = Suc (bitLength (numeral w))"
  "bitLength (numeral (num.Bit1 w)) = Suc (bitLength (numeral w))"
proof -
  show z: "bitLength 0 = 0" by (subst bitLength.simps) simp
  show o: "bitLength (Suc 0) = 1" by (subst bitLength.simps) (simp add: z)
  then show "bitLength 1 = 1" by simp
  show "bitLength (numeral (num.Bit0 w)) = Suc (bitLength (numeral w))"
    by (subst bitLength.simps) simp
  show "bitLength (numeral (num.Bit1 w)) = Suc (bitLength (numeral w))"
    by (subst bitLength.simps) simp
qed

lemmas double_defs = floor_product_def roundTiesToEven_def Let_def bitLength_numeral

lemma floor_product_less:
  assumes m: "mantissa x < 2 ^ 53" and lt: "mantissa x < 2 ^ exponent x" and n: "0 < n"
  shows "floor_product x n < n"
proof -
  define A :: nat where "A = 2 ^ 53"
  define K :: nat where "K = 2 ^ exponent x"
  define N where "N = mantissa x * n"
  define d where "d = bitLength N - 53"
  define h :: nat where "h = 2 ^ d div 2"
  have Kpos: "0 < K" by (simp add: K_def)
  obtain B where B: "A = Suc B" by (cases A) (simp_all add: A_def)
  obtain K' where K': "K = Suc K'" using Kpos by (cases K) simp_all
  have mA: "mantissa x * A \<le> K * B"
  proof (cases "exponent x \<le> 53")
    case True
    then have "K \<le> A" unfolding K_def A_def by (intro power_increasing) simp_all
    then have "K' \<le> B" by (simp add: B K')
    from lt have "mantissa x \<le> K'" using K' by (simp add: K_def)
    then have "mantissa x * A \<le> K' * A" by (rule mult_le_mono1)
    also have "\<dots> = K' * B + K'" by (simp add: B)
    also have "\<dots> \<le> K' * B + B" using \<open>K' \<le> B\<close> by simp
    also have "\<dots> = K * B" by (simp add: K')
    finally show ?thesis .
  next
    case False
    then have "A \<le> K" unfolding K_def A_def by (intro power_increasing) simp_all
    from m have "mantissa x \<le> B" using B by (simp add: A_def)
    then have "mantissa x * A \<le> B * A" by (rule mult_le_mono1)
    also have "\<dots> \<le> B * K" using \<open>A \<le> K\<close> by (rule mult_le_mono2)
    finally show ?thesis by (simp add: mult.commute)
  qed
  have hN: "h * A \<le> N \<or> h = 0"
  proof (cases "d = 0")
    case True
    then show ?thesis by (simp add: h_def)
  next
    case False
    then have big: "53 < bitLength N" by (simp add: d_def)
    then have "0 < N" by (cases "N = 0") (simp_all add: bitLength.simps [of 0])
    then have "2 ^ (bitLength N - 1) \<le> N" by (rule bitLength_lower)
    moreover have "bitLength N - 1 = (d - 1) + 53" using big by (simp add: d_def)
    moreover have "h = 2 ^ (d - 1)" using False by (cases d) (simp_all add: h_def)
    ultimately show ?thesis by (simp add: A_def power_add)
  qed
  have R: "roundTiesToEven N d * 2 ^ d \<le> N + h" unfolding h_def by (rule round_upper)
  have "N + h < n * K"
  proof (cases "h = 0")
    case True
    from lt have "mantissa x * n < K * n" using n by (simp add: K_def)
    with True show ?thesis by (simp add: N_def mult.commute)
  next
    case False
    with hN have hA: "h * A \<le> N" by simp
    have "A * A * (N + h) = A * (A * N + h * A)" by (simp add: algebra_simps)
    also have "\<dots> \<le> A * (A * N + N)" using hA by simp
    also have "\<dots> = (A + 1) * n * (mantissa x * A)" by (simp add: N_def algebra_simps)
    also have "\<dots> \<le> (A + 1) * n * (K * B)" using mA by (rule mult_le_mono2)
    also have "\<dots> = n * K * ((A + 1) * B)" by (simp add: algebra_simps)
    also have "\<dots> < n * K * (A * A)"
    proof -
      have "(A + 1) * B < A * A" by (simp add: B)
      moreover have "0 < n * K" using n Kpos by simp
      ultimately show ?thesis by simp
    qed
    finally have "A * A * (N + h) < A * A * (n * K)" by (simp add: mult.commute)
    then show ?thesis by simp
  qed
  with R have "roundTiesToEven N d * 2 ^ d < n * K" by simp
  then have "(roundTiesToEven N d * 2 ^ d) div K < n"
    using Kpos by (simp add: less_mult_imp_div_less)
  then show ?thesis
    by (simp add: floor_product_def Let_def N_def d_def K_def)
qed

text \<open>
  The rounding of the product is visible: seven times the double
  \<open>2573485501354569 / 2 ^ 52\<close> is just below \<open>4\<close> and rounds to \<open>4\<close>.
\<close>

lemma floor_product_rounds:
  "floor_product \<lparr>mantissa = 2573485501354569, exponent = 52\<rparr> 7 = 4"
  by (simp add: double_defs)

subsection \<open>Objects and loops\<close>

lemma indexOf_present: "indexOf xs x \<noteq> - 1 \<longleftrightarrow> x \<in> set xs"
  by (simp add: indexOf_absent)

lemma get_prop_Own: "get_prop obj k = Own v \<longleftrightarrow> map_of obj k = Some v"
  by (simp add: get_prop_def split: option.split)

lemma get_prop_key: "k \<in> fst ` set obj \<Longrightarrow> \<exists>v. get_prop obj k = Own v"
  by (auto simp: get_prop_def split: option.split dest: weak_map_of_SomeI)

lemma get_prop_Own_key: "get_prop obj k = Own v \<Longrightarrow> k \<in> fst ` set obj"
  by (auto simp: get_prop_Own dest: map_of_SomeD intro: rev_image_eqI)

lemma exts_of_Own: "get_prop fs g = Own i \<Longrightarrow> exts_of fs g = exts i"
  by (simp add: get_prop_Own exts_of_def)

lemma convertable_ext_find:
  "convertable_ext es = find (\<lambda>e. e \<in> set CONVERTABLE_EXTS) es"
  by (induction es) (simp_all add: indexOf_absent)

lemma set_Object_keys: "set (Object_keys obj) = fst ` set obj"
  by (auto simp: Object_keys_def Let_def)

lemma getMissingMP3s_forEach_filter:
  "set ps \<subseteq> fst ` set fs \<Longrightarrow>
   getMissingMP3s_forEach fs ps acc = Inr (acc @ filter (\<lambda>g. \<not> has_mp3 fs g) ps)"
proof (induction ps arbitrary: acc)
  case Nil
  show ?case by simp
next
  case (Cons p ps)
  from Cons.prems obtain i where i: "get_prop fs p = Own i"
    using get_prop_key [of p fs] by auto
  from Cons.prems have "set ps \<subseteq> fst ` set fs" by simp
  note IH = Cons.IH [OF this]
  from i show ?case
    by (simp add: IH has_mp3_def exts_of_Own indexOf_absent)
qed

lemma generateMP3List_forEach_filter:
  "set gs \<subseteq> fst ` set (files this) \<Longrightarrow>
   generateMP3List_forEach gs this
     = Inr (this\<lparr>mp3s := mp3s this @ filter (has_mp3 (files this)) gs\<rparr>)"
proof (induction gs arbitrary: this)
  case Nil
  show ?case by simp
next
  case (Cons g gs)
  from Cons.prems obtain i where i: "get_prop (files this) g = Own i"
    using get_prop_key [of g "files this"] by auto
  from Cons.prems have sub: "set gs \<subseteq> fst ` set (files this)" by simp
  show ?case
  proof (cases "MP3_EXT \<in> set (exts i)")
    case True
    have "set gs \<subseteq> fst ` set (files (this\<lparr>mp3s := mp3s this @ [g]\<rparr>))" using sub by simp
    from Cons.IH [OF this] i True show ?thesis
      by (simp add: has_mp3_def exts_of_Own indexOf_absent)
  next
    case False
    from Cons.IH [OF sub] i False show ?thesis
      by (simp add: has_mp3_def exts_of_Own indexOf_absent)
  qed
qed

lemma generateMP3List_filter:
  "set (paths this) \<subseteq> fst ` set (files this) \<Longrightarrow>
   generateMP3List this = Inr (this\<lparr>mp3s := filter (has_mp3 (files this)) (paths this)\<rparr>)"
  using generateMP3List_forEach_filter [of "paths this" "this\<lparr>mp3s := []\<rparr>"]
  by (simp add: generateMP3List_def)

lemma find_convertable_nonempty:
  "find (\<lambda>e. e \<in> set CONVERTABLE_EXTS) es = Some e \<Longrightarrow> e \<noteq> []"
  by (auto simp: find_Some_iff CONVERTABLE_EXTS_def)

lemma push_jobs_map_filter:
  "set gs \<subseteq> fst ` set fs \<Longrightarrow>
   push_jobs fs gs acc = Inr (acc @ List.map_filter (job_for fs) gs)"
proof (induction gs arbitrary: acc)
  case Nil
  show ?case by simp
next
  case (Cons g gs)
  from Cons.prems obtain i where i: "get_prop fs g = Own i"
    using get_prop_key [of g fs] by auto
  from Cons.prems have "set gs \<subseteq> fst ` set fs" by simp
  note IH = Cons.IH [OF this]
  show ?case
  proof (cases "find (\<lambda>e. e \<in> set CONVERTABLE_EXTS) (exts i)")
    case None
    with i show ?thesis
      by (simp add: IH convertable_ext_find job_for_def exts_of_Own)
  next
    case (Some e)
    then have "e \<noteq> []" by (rule find_convertable_nonempty)
    with i Some show ?thesis
      by (simp add: IH convertable_ext_find job_for_def exts_of_Own)
  qed
qed

lemma exts_of_update:
  "exts_of (AList.update k v fs) g = (if g = k then exts v else exts_of fs g)"
  by (simp add: exts_of_def update_conv')

lemma get_prop_update_same: "get_prop (AList.update k v fs) k = Own v"
  by (simp add: get_prop_def update_conv')

lemma exts_of_Absent: "get_prop fs g = Absent \<Longrightarrow> exts_of fs g = []"
  by (simp add: get_prop_def exts_of_def split: option.splits if_splits)

lemma scan_exts:
  "scan contents (fs0, q0) = Inr (fs, q) \<Longrightarrow>
   exts_of fs g = exts_of fs0 g
     @ map getFileExt
         (filter (\<lambda>k. getGlob k = g \<and> g \<noteq> [] \<and> getFileExt k \<noteq> ''.txt'') contents)"
proof (induction contents arbitrary: fs0 q0)
  case Nil
  then show ?case by simp
next
  case (Cons key contents)
  show ?case
  proof (cases "getGlob key = []")
    case True
    with Cons.prems have "scan contents (fs0, q0) = Inr (fs, q)" by simp
    from Cons.IH [OF this] True show ?thesis by auto
  next
    case False
    define fs1 where "fs1 = (if get_prop fs0 (getGlob key) = Absent
       then AList.update (getGlob key) \<lparr>sentence = Null, exts = []\<rparr> fs0 else fs0)"
    have fs1: "exts_of fs1 g = exts_of fs0 g"
      by (simp add: fs1_def exts_of_update exts_of_Absent)
    show ?thesis
    proof (cases "getFileExt key = ''.txt''")
      case True
      with Cons.prems False
      have "scan contents (fs1, q0 @ [\<lparr>item_path = key, item_glob = getGlob key\<rparr>]) = Inr (fs, q)"
        by (simp add: fs1_def Let_def)
      from Cons.IH [OF this] True show ?thesis by (simp add: fs1)
    next
      case notxt: False
      show ?thesis
      proof (cases "get_prop fs1 (getGlob key)")
        case (Own i)
        with Cons.prems False notxt
        have "scan contents (AList.update (getGlob key) (i\<lparr>exts := exts i @ [getFileExt key]\<rparr>) fs1, q0)
              = Inr (fs, q)"
          by (simp add: fs1_def Let_def)
        from Cons.IH [OF this] Own False notxt fs1 show ?thesis
          by (auto simp: exts_of_update exts_of_Own)
      next
        case Inherited
        with Cons.prems False notxt show ?thesis by (simp add: fs1_def Let_def)
      next
        case Absent
        with Cons.prems False notxt show ?thesis by (simp add: fs1_def Let_def)
      qed
    qed
  qed
qed

lemma scan_returns:
  "\<forall>k\<in>set contents. getGlob k \<notin> set Object_prototype \<Longrightarrow>
   \<exists>fs q. scan contents (fs0, q0) = Inr (fs, q)"
proof (induction contents arbitrary: fs0 q0)
  case Nil
  show ?case by simp
next
  case (Cons key contents)
  from Cons.prems have rest: "\<forall>k\<in>set contents. getGlob k \<notin> set Object_prototype"
    and key: "getGlob key \<notin> set Object_prototype" by simp_all
  define fs1 where "fs1 = (if get_prop fs0 (getGlob key) = Absent
       then AList.update (getGlob key) \<lparr>sentence = Null, exts = []\<rparr> fs0 else fs0)"
  have "\<exists>i. get_prop fs1 (getGlob key) = Own i"
  proof (cases "get_prop fs0 (getGlob key)")
    case (Own v)
    then show ?thesis by (simp add: fs1_def)
  next
    case Inherited
    with key show ?thesis by (simp add: get_prop_def split: option.splits if_splits)
  next
    case Absent
    then show ?thesis by (simp add: fs1_def get_prop_update_same)
  qed
  then obtain i where i: "get_prop fs1 (getGlob key) = Own i" ..
  show ?case
  proof (cases "getGlob key = []")
    case True
    then have "scan (key # contents) (fs0, q0) = scan contents (fs0, q0)" by simp
    with Cons.IH [OF rest, of fs0 q0] show ?thesis by simp
  next
    case False
    show ?thesis
    proof (cases "getFileExt key = ''.txt''")
      case True
      with False have "scan (key # contents) (fs0, q0)
          = scan contents (fs1, q0 @ [\<lparr>item_path = key, item_glob = getGlob key\<rparr>])"
        by (simp add: fs1_def Let_def)
      with Cons.IH [OF rest, of fs1 "q0 @ [\<lparr>item_path = key, item_glob = getGlob key\<rparr>]"]
      show ?thesis by simp
    next
      case notxt: False
      with False i have "scan (key # contents) (fs0, q0)
          = scan contents (AList.update (getGlob key) (i\<lparr>exts := exts i @ [getFileExt key]\<rparr>) fs1, q0)"
        by (simp add: fs1_def Let_def)
      with Cons.IH [OF rest, of "AList.update (getGlob key) (i\<lparr>exts := exts i @ [getFileExt key]\<rparr>) fs1" q0]
      show ?thesis by simp
    qed
  qed
qed

lemma keys_step:
  "F1 \<subseteq> insert (getGlob key) F0 \<Longrightarrow> getGlob key \<noteq> [] \<Longrightarrow>
   g \<in> F1 \<or> (g \<noteq> [] \<and> (\<exists>k\<in>set contents. getGlob k = g)) \<Longrightarrow>
   g \<in> F0 \<or> (g \<noteq> [] \<and> (\<exists>k\<in>set (key # contents). getGlob k = g))"
  by auto

lemma keys_skip:
  "g \<in> F0 \<or> (g \<noteq> [] \<and> (\<exists>k\<in>set contents. getGlob k = g)) \<Longrightarrow>
   g \<in> F0 \<or> (g \<noteq> [] \<and> (\<exists>k\<in>set (key # contents). getGlob k = g))"
  by auto

lemma scan_keys:
  "scan contents (fs0, q0) = Inr (fs, q) \<Longrightarrow> g \<in> fst ` set fs \<Longrightarrow>
   g \<in> fst ` set fs0 \<or> (g \<noteq> [] \<and> (\<exists>k\<in>set contents. getGlob k = g))"
proof (induction contents arbitrary: fs0 q0)
  case Nil
  then show ?case by simp
next
  case (Cons key contents)
  note mem = \<open>g \<in> fst ` set fs\<close>
  show ?case
  proof (cases "getGlob key = []")
    case True
    with Cons.prems(1) have "scan contents (fs0, q0) = Inr (fs, q)" by simp
    from Cons.IH [OF this mem] show ?thesis by (rule keys_skip)
  next
    case False
    define fs1 where "fs1 = (if get_prop fs0 (getGlob key) = Absent
       then AList.update (getGlob key) \<lparr>sentence = Null, exts = []\<rparr> fs0 else fs0)"
    have fs1: "fst ` set fs1 \<subseteq> insert (getGlob key) (fst ` set fs0)"
      by (simp add: fs1_def dom_update subset_insertI)
    have step: "g \<in> fst ` set fs1 \<or> (g \<noteq> [] \<and> (\<exists>k\<in>set contents. getGlob k = g))
        \<Longrightarrow> ?thesis"
      using fs1 False by (rule keys_step)
    show ?thesis
    proof (cases "getFileExt key = ''.txt''")
      case True
      with Cons.prems(1) False
      have "scan contents (fs1, q0 @ [\<lparr>item_path = key, item_glob = getGlob key\<rparr>]) = Inr (fs, q)"
        by (simp add: fs1_def Let_def)
      from Cons.IH [OF this mem] show ?thesis by (rule step)
    next
      case notxt: False
      show ?thesis
      proof (cases "get_prop fs1 (getGlob key)")
        case (Own i)
        from Own have own: "getGlob key \<in> fst ` set fs1" by (rule get_prop_Own_key)
        from Own Cons.prems(1) False notxt
        have "scan contents (AList.update (getGlob key) (i\<lparr>exts := exts i @ [getFileExt key]\<rparr>) fs1, q0)
              = Inr (fs, q)"
          by (simp add: fs1_def Let_def)
        from Cons.IH [OF this mem]
        have "g \<in> fst ` set fs1 \<or> (g \<noteq> [] \<and> (\<exists>k\<in>set contents. getGlob k = g))"
          using own by (simp add: dom_update insert_absorb)
        then show ?thesis by (rule step)
      next
        case Inherited
        with Cons.prems(1) False notxt show ?thesis by (simp add: fs1_def Let_def)
      next
        case Absent
        with Cons.prems(1) False notxt show ?thesis by (simp add: fs1_def Let_def)
      qed
    qed
  qed
qed

subsection \<open>The glob of a key\<close>

text \<open>
  C7. The claim reads the glob as the key with its final extension segment stripped.
  \<open>getGlob\<close> cuts at the first \<open>.\<close> of the key, not at the last one: for the key
  \<open>clip.v2.ogg\<close>, whose extension is \<open>.ogg\<close>, it returns \<open>clip\<close>, while stripping the
  final extension gives \<open>clip.v2\<close>. The catalog then refers to the key \<open>clip.ogg\<close>
  (glob followed by extension), which is not the listed key.
\<close>

theorem getGlob_cuts_at_first_dot:
  "getGlob ''clip.v2.ogg'' = ''clip''
   \<and> getFileExt ''clip.v2.ogg'' = ''.ogg''
   \<and> stripFinalExtension ''clip.v2.ogg'' = ''clip.v2''
   \<and> getGlob ''clip.v2.ogg'' @ getFileExt ''clip.v2.ogg'' \<noteq> ''clip.v2.ogg''"
  by (simp add: getGlob_def getFileExt_def stripFinalExtension_def substr_def
      lastIndexOf_def toLowerCase_char_def Let_def)

subsection \<open>Runs of \<open>init\<close>\<close>

text \<open>
  With either receiver the callbacks of \<open>process\<close> and \<open>convert\<close> leave the flag, the
  paths, the list of mp3s and the keys of the catalog as they are; the invariant
  holds in every configuration of a run; after a failed listing nothing happens any
  more.
\<close>

lemma update_own_keys:
  "get_prop fs k = Own i \<Longrightarrow> fst ` set (AList.update k v fs) = fst ` set fs"
proof -
  assume "get_prop fs k = Own i"
  then have "k \<in> fst ` set fs" by (rule get_prop_Own_key)
  then show ?thesis by (simp add: dom_update insert_absorb)
qed

lemma process_callback_frame:
  "initialized (snd (process_callback rcv data reply this)) = initialized this
   \<and> paths (snd (process_callback rcv data reply this)) = paths this
   \<and> mp3s (snd (process_callback rcv data reply this)) = mp3s this
   \<and> fst ` set (files (snd (process_callback rcv data reply this))) = fst ` set (files this)"
proof (cases reply)
  case (Inl err)
  then show ?thesis by (simp add: process_callback_def)
next
  case (Inr body)
  show ?thesis
  proof (cases rcv)
    case S3_response
    with Inr show ?thesis by (simp add: process_callback_def)
  next
    case Files_instance
    show ?thesis
    proof (cases "get_prop (files this) (item_glob data)")
      case (Own i)
      with Inr Files_instance show ?thesis
        by (simp add: process_callback_def update_own_keys)
    next
      case Inherited
      with Inr Files_instance show ?thesis by (simp add: process_callback_def)
    next
      case Absent
      with Inr Files_instance show ?thesis by (simp add: process_callback_def)
    qed
  qed
qed

lemma putObject_callback_frame:
  assumes "convert_putObject_callback rcv glob n err (this, finished) = (sig, this', finished')"
  shows "initialized this' = initialized this \<and> paths this' = paths this
   \<and> mp3s this' = mp3s this \<and> fst ` set (files this') = fst ` set (files this)"
proof (cases err)
  case (Some e)
  with assms show ?thesis by (simp add: convert_putObject_callback_def)
next
  case None
  show ?thesis
  proof (cases rcv)
    case S3_response
    with assms None show ?thesis by (simp add: convert_putObject_callback_def)
  next
    case Files_instance
    show ?thesis
    proof (cases "get_prop (files this) glob")
      case (Own i)
      with assms None Files_instance
      have "this' = this\<lparr>files := AList.update glob (i\<lparr>exts := exts i @ [MP3_EXT]\<rparr>) (files this)\<rparr>"
        by (simp add: convert_putObject_callback_def Let_def)
      with update_own_keys [OF Own] show ?thesis by simp
    next
      case Inherited
      with assms None Files_instance show ?thesis by (simp add: convert_putObject_callback_def)
    next
      case Absent
      with assms None Files_instance show ?thesis by (simp add: convert_putObject_callback_def)
    qed
  qed
qed

lemma inv_init: "invariant init"
  by (simp add: invariant_def init_def new_Files_def)

lemma inv_listing:
  "invariant c \<Longrightarrow> \<not> listed c \<Longrightarrow> invariant (listObjectsV2_callback reply (c\<lparr>listed := True\<rparr>))"
  by (simp add: listObjectsV2_callback_def invariant_def new_Files_def Let_def
      set_Object_keys settle_def split: sum.split prod.split)

lemma inv_then:
  assumes "invariant c" "conversion c = Some (Resolved ())"
  shows "invariant (then_callback (c\<lparr>continued := True\<rparr>))"
proof -
  from assms(1) have sub: "set (paths (self c)) \<subseteq> fst ` set (files (self c))"
    by (simp add: invariant_def)
  have gen: "generateMP3List (self c)
      = Inr ((self c)\<lparr>mp3s := filter (has_mp3 (files (self c))) (paths (self c))\<rparr>)"
    using sub by (rule generateMP3List_filter)
  from assms(1) have "init_promise c = Pending \<or> init_promise c = Resolved ()"
    by (simp add: invariant_def)
  then show ?thesis
  proof
    assume "init_promise c = Pending"
    with assms show ?thesis by (simp add: then_callback_def gen invariant_def settle_def)
  next
    assume "init_promise c = Resolved ()"
    with assms show ?thesis by (simp add: then_callback_def gen invariant_def settle_def)
  qed
qed

lemma step_unlisted:
  "invariant c \<Longrightarrow> \<not> listed c \<Longrightarrow> step rcv e c = (case e of
      ListObjects reply \<Rightarrow> listObjectsV2_callback reply (c\<lparr>listed := True\<rparr>) | _ \<Rightarrow> c)"
  by (cases e) (simp_all add: invariant_def)

lemma inv_step_listed:
  assumes "invariant c" "listed c"
  shows "invariant (step rcv e c)"
proof (cases e)
  case (ListObjects reply)
  with assms show ?thesis by simp
next
  case (GetObject_sentence data reply)
  with assms process_callback_frame [of rcv data reply "self c"] show ?thesis
    by (simp add: invariant_def)
next
  case (Convert jobs)
  with assms show ?thesis by (simp add: invariant_def split: option.split)
next
  case (GetObject_audio err)
  with assms show ?thesis by simp
next
  case (PutObject w j err)
  show ?thesis
  proof (cases "w < length (workers c) \<and> j \<in> set (fst (workers c ! w))")
    case False
    with assms PutObject show ?thesis by auto
  next
    case True
    obtain jobs finished where w: "workers c ! w = (jobs, finished)"
      by (cases "workers c ! w")
    obtain sig this' finished' where
      cb: "convert_putObject_callback rcv (source_glob j) (length jobs) err
             (self c, finished) = (sig, this', finished')"
      by (cases "convert_putObject_callback rcv (source_glob j) (length jobs) err
             (self c, finished)")
    from cb have "initialized this' = initialized (self c) \<and> paths this' = paths (self c)
        \<and> mp3s this' = mp3s (self c) \<and> fst ` set (files this') = fst ` set (files (self c))"
      by (rule putObject_callback_frame)
    with assms PutObject True w cb show ?thesis by (simp add: invariant_def)
  qed
next
  case Drain
  show ?thesis
  proof (cases "conversion c")
    case None
    with assms Drain show ?thesis by (simp split: option.split)
  next
    case (Some p)
    with assms Drain show ?thesis
      by (cases "converter c") (simp_all add: invariant_def settle_def)
  qed
next
  case (Queue_error err)
  show ?thesis
  proof (cases "conversion c")
    case None
    with assms Queue_error show ?thesis by (simp split: option.split)
  next
    case (Some p)
    with assms Queue_error show ?thesis
      by (cases "converter c") (simp_all add: invariant_def settle_def)
  qed
next
  case Then
  with assms show ?thesis by (simp add: inv_then)
qed

lemma inv_step: "invariant c \<Longrightarrow> invariant (step rcv e c)"
proof (cases "listed c")
  case True
  assume "invariant c"
  then show ?thesis using True by (rule inv_step_listed)
next
  case False
  assume "invariant c"
  then have "step rcv e c = (case e of
      ListObjects reply \<Rightarrow> listObjectsV2_callback reply (c\<lparr>listed := True\<rparr>) | _ \<Rightarrow> c)"
    using False by (rule step_unlisted)
  with \<open>invariant c\<close> False show ?thesis
    by (cases e) (simp_all add: inv_listing)
qed

lemma inv_run: "invariant c \<Longrightarrow> invariant (run rcv evs c)"
  by (induction evs arbitrary: c) (simp_all add: inv_step)

lemma inv_run_init: "invariant (run rcv evs init)"
  by (rule inv_run [OF inv_init])

lemma step_after_failure: "step rcv e (init\<lparr>listed := True\<rparr>) = init\<lparr>listed := True\<rparr>"
  by (cases e) (simp_all add: init_def)

lemma run_after_failure: "run rcv evs (init\<lparr>listed := True\<rparr>) = init\<lparr>listed := True\<rparr>"
  by (induction evs) (simp_all add: step_after_failure)

lemma init_never_rejects: "init_promise (run rcv evs init) \<noteq> Rejected msg"
  using inv_run_init [of rcv evs] by (auto simp: invariant_def)

lemmas eval_defs = init_def new_Files_def listObjectsV2_callback_def then_callback_def
  getGlob_def getFileExt_def substr_def lastIndexOf_def toLowerCase_char_def Let_def
  get_prop_def Object_prototype_def Object_keys_def isArrayIndex_def isDigit_def
  digitsValue_def convertMissingToMP3s_def getMissingMP3s_def generateMP3List_def
  MP3_EXT_def CONVERTABLE_EXTS_def settle_def process_def process_callback_def

lemma listing_listed: "listed (listObjectsV2_callback reply (c\<lparr>listed := True\<rparr>))"
  by (simp add: listObjectsV2_callback_def Let_def split: sum.split prod.split)

lemma listing_files:
  "scan contents ([], []) = Inr (fs, q) \<Longrightarrow>
   files (self (listObjectsV2_callback (Inr contents) (init\<lparr>listed := True\<rparr>))) = fs"
  by (simp add: listObjectsV2_callback_def init_def new_Files_def Let_def
      split: sum.split prod.split)

lemma process_callback_on_instance:
  "get_prop (files this) (item_glob data) = Own i \<Longrightarrow>
   process_callback Files_instance data (Inr body) this
     = (Cb None,
        this\<lparr>files := AList.update (item_glob data) (i\<lparr>sentence := Text (toString body)\<rparr>)
                   (files this)\<rparr>)"
  by (simp add: process_callback_def)

lemma listed_step: "listed c \<Longrightarrow> listed (step rcv e c)"
  by (cases e) (simp_all add: then_callback_def split: option.split prod.split sum.split)

lemma listed_run: "listed c \<Longrightarrow> listed (run rcv evs c)"
  by (induction evs arbitrary: c) (simp_all add: listed_step)

lemma listing_started:
  assumes "conversion (listObjectsV2_callback reply (init\<lparr>listed := True\<rparr>)) \<noteq> None"
  shows "\<exists>contents fs q p. reply = Inr contents \<and> scan contents ([], []) = Inr (fs, q)
     \<and> paths (self (listObjectsV2_callback reply (init\<lparr>listed := True\<rparr>))) = Object_keys fs
     \<and> convertMissingToMP3s (post_scan fs)
         = Inr (p, converter (listObjectsV2_callback reply (init\<lparr>listed := True\<rparr>)))
     \<and> conversion (listObjectsV2_callback reply (init\<lparr>listed := True\<rparr>)) = Some p"
proof (cases reply)
  case (Inl err)
  with assms show ?thesis by (simp add: listObjectsV2_callback_def init_def)
next
  case (Inr contents)
  show ?thesis
  proof (cases "scan contents ([], [])")
    case (Inl a)
    with assms Inr show ?thesis
      by (simp add: listObjectsV2_callback_def init_def new_Files_def split: prod.splits)
  next
    case scanned: (Inr b)
    obtain fs q where b: "b = (fs, q)" by (cases b)
    show ?thesis
    proof (cases "Object_keys fs = []")
      case True
      with assms Inr scanned b show ?thesis
        by (simp add: listObjectsV2_callback_def init_def new_Files_def Let_def)
    next
      case False
      show ?thesis
      proof (cases "convertMissingToMP3s (post_scan fs)")
        case (Inl e)
        with assms Inr scanned b False show ?thesis
          by (simp add: listObjectsV2_callback_def init_def new_Files_def post_scan_def Let_def)
      next
        case conv: (Inr pq)
        obtain p jobs where pq: "pq = (p, jobs)" by (cases pq)
        with Inr scanned b False conv show ?thesis
          by (simp add: listObjectsV2_callback_def init_def new_Files_def post_scan_def Let_def)
      qed
    qed
  qed
qed

lemma listing_initialized:
  assumes "initialized (self (listObjectsV2_callback reply (init\<lparr>listed := True\<rparr>)))"
  shows "\<exists>contents fs q. reply = Inr contents \<and> scan contents ([], []) = Inr (fs, q)
     \<and> paths (self (listObjectsV2_callback reply (init\<lparr>listed := True\<rparr>))) = Object_keys fs"
proof (cases reply)
  case (Inl err)
  with assms show ?thesis by (simp add: listObjectsV2_callback_def init_def new_Files_def)
next
  case (Inr contents)
  show ?thesis
  proof (cases "scan contents ([], [])")
    case (Inl a)
    with assms Inr show ?thesis
      by (simp add: listObjectsV2_callback_def init_def new_Files_def split: prod.splits)
  next
    case scanned: (Inr b)
    obtain fs q where b: "b = (fs, q)" by (cases b)
    with Inr scanned show ?thesis
      by (simp add: listObjectsV2_callback_def init_def new_Files_def Let_def
          split: sum.split prod.split)
  qed
qed

lemma step_listed_frame:
  assumes "invariant c" "listed c"
  shows "paths (self (step rcv e c)) = paths (self c)
   \<and> converter (step rcv e c) = converter c
   \<and> (conversion (step rcv e c) = conversion c
      \<or> conversion c = Some Pending \<and> conversion (step rcv e c) \<noteq> None)
   \<and> (initialized (self (step rcv e c)) \<longrightarrow> initialized (self c) \<or> conversion c \<noteq> None)"
proof (cases e)
  case (ListObjects reply)
  with assms show ?thesis by simp
next
  case (GetObject_sentence data reply)
  with assms process_callback_frame [of rcv data reply "self c"] show ?thesis by simp
next
  case (Convert jobs)
  with assms show ?thesis by (simp split: option.split)
next
  case (GetObject_audio err)
  with assms show ?thesis by simp
next
  case (PutObject w j err)
  show ?thesis
  proof (cases "w < length (workers c) \<and> j \<in> set (fst (workers c ! w))")
    case False
    with PutObject show ?thesis by auto
  next
    case True
    obtain jobs finished where w: "workers c ! w = (jobs, finished)"
      by (cases "workers c ! w")
    obtain sig this' finished' where
      cb: "convert_putObject_callback rcv (source_glob j) (length jobs) err
             (self c, finished) = (sig, this', finished')"
      by (cases "convert_putObject_callback rcv (source_glob j) (length jobs) err
             (self c, finished)")
    from cb have "initialized this' = initialized (self c) \<and> paths this' = paths (self c)
        \<and> mp3s this' = mp3s (self c) \<and> fst ` set (files this') = fst ` set (files (self c))"
      by (rule putObject_callback_frame)
    with PutObject True w cb show ?thesis by simp
  qed
next
  case Drain
  show ?thesis
  proof (cases "conversion c")
    case None
    with Drain show ?thesis by (simp split: option.split)
  next
    case (Some p)
    with Drain show ?thesis
      by (cases "converter c") (simp_all add: settle_def)
  qed
next
  case (Queue_error err)
  show ?thesis
  proof (cases "conversion c")
    case None
    with Queue_error show ?thesis by (simp split: option.split)
  next
    case (Some p)
    with Queue_error show ?thesis
      by (cases "converter c") (simp_all add: settle_def)
  qed
next
  case Then
  from assms(1) have "set (paths (self c)) \<subseteq> fst ` set (files (self c))"
    by (simp add: invariant_def)
  then have "generateMP3List (self c)
      = Inr ((self c)\<lparr>mp3s := filter (has_mp3 (files (self c))) (paths (self c))\<rparr>)"
    by (rule generateMP3List_filter)
  with Then show ?thesis by (simp add: then_callback_def)
qed

lemma run_listed_frame:
  "invariant c \<Longrightarrow> listed c \<Longrightarrow>
   paths (self (run rcv evs c)) = paths (self c)
   \<and> converter (run rcv evs c) = converter c
   \<and> (conversion (run rcv evs c) = conversion c
      \<or> conversion c = Some Pending \<and> conversion (run rcv evs c) \<noteq> None)
   \<and> (initialized (self (run rcv evs c)) \<longrightarrow> initialized (self c) \<or> conversion c \<noteq> None)"
proof (induction evs arbitrary: c)
  case Nil
  show ?case by simp
next
  case (Cons e evs)
  have i: "invariant (step rcv e c)" using Cons.prems(1) by (rule inv_step)
  have l: "listed (step rcv e c)" using Cons.prems(2) by (rule listed_step)
  from Cons.IH [OF i l] step_listed_frame [OF Cons.prems, of rcv e]
  show ?case by auto
qed

lemma step_init_listing:
  "step rcv (ListObjects reply) init = listObjectsV2_callback reply (init\<lparr>listed := True\<rparr>)"
  by (simp add: init_def)

lemma step_init_other: "\<forall>reply. e \<noteq> ListObjects reply \<Longrightarrow> step rcv e init = init"
  by (cases e) (simp_all add: init_def)

lemma run_no_listing: "first_listing evs = None \<Longrightarrow> run rcv evs init = init"
proof (induction evs)
  case Nil
  show ?case by simp
next
  case (Cons e evs)
  from Cons.prems have e: "\<forall>reply. e \<noteq> ListObjects reply" by (cases e) simp_all
  with Cons.prems have "first_listing evs = None" by (cases e) simp_all
  with Cons.IH e show ?case by (simp del: step.simps add: step_init_other)
qed

lemma run_first_listing:
  "first_listing evs = Some reply \<Longrightarrow>
   \<exists>post. run rcv evs init = run rcv post (listObjectsV2_callback reply (init\<lparr>listed := True\<rparr>))"
proof (induction evs)
  case Nil
  then show ?case by simp
next
  case (Cons e evs)
  show ?case
  proof (cases "\<exists>r. e = ListObjects r")
    case True
    then obtain r where r: "e = ListObjects r" ..
    with Cons.prems have "r = reply" by simp
    with r have "run rcv (e # evs) init
        = run rcv evs (listObjectsV2_callback reply (init\<lparr>listed := True\<rparr>))"
      by (simp del: step.simps add: step_init_listing)
    then show ?thesis ..
  next
    case False
    then have e: "\<forall>reply. e \<noteq> ListObjects reply" by simp
    with Cons.prems have "first_listing evs = Some reply" by (cases e) simp_all
    with Cons.IH e show ?thesis by (simp del: step.simps add: step_init_other)
  qed
qed

subsection \<open>Failure of the listing\<close>

text \<open>
  C1. The claim has \<open>init\<close> reject when the listing fails. On an error the callback
  of \<open>listObjectsV2\<close> logs and returns: neither \<open>res\<close> nor \<open>rej\<close> is called. Whatever
  happens afterwards, the promise returned by \<open>init\<close> stays pending and the instance is
  never initialized. (The other half of the claim holds: no run rejects the promise
  of \<open>init\<close>, see \<open>init_never_rejects\<close>.)
\<close>

theorem init_listing_failure_pending:
  "init_promise (run rcv (ListObjects (Inl err) # evs) init) = Pending
   \<and> \<not> initialized (self (run rcv (ListObjects (Inl err) # evs) init))"
proof -
  have "step rcv (ListObjects (Inl err)) init = init\<lparr>listed := True\<rparr>"
    by (simp add: init_def listObjectsV2_callback_def)
  then have "run rcv (ListObjects (Inl err) # evs) init = init\<lparr>listed := True\<rparr>"
    by (simp add: run_after_failure)
  then show ?thesis by (simp add: init_def new_Files_def)
qed

subsection \<open>Order of the stages\<close>

text \<open>
  C2, as the code has it. In every run, when the conversion has been started, the
  first listing replied with keys, the scan of these keys ran to its end, the paths
  are the keys of the scanned catalog, and the promise and the queue of the
  conversion are those that \<open>convertMissingToMP3s\<close> returns on the instance as the
  scan left it (the promise may since have been settled). The flag \<open>initialized\<close> is
  set only after such a completed scan and when either no glob was found or the
  conversion promise is resolved and its continuation has run. The transcript queue
  is not waited for.
\<close>

theorem init_stage_order:
  "(conversion (run rcv evs init) \<noteq> None \<longrightarrow>
      (\<exists>contents fs q p. first_listing evs = Some (Inr contents)
         \<and> scan contents ([], []) = Inr (fs, q)
         \<and> paths (self (run rcv evs init)) = Object_keys fs
         \<and> convertMissingToMP3s (post_scan fs) = Inr (p, converter (run rcv evs init))
         \<and> (conversion (run rcv evs init) = Some p \<or> p = Pending)))
   \<and> (initialized (self (run rcv evs init)) \<longrightarrow>
        listed (run rcv evs init)
        \<and> (\<exists>contents fs q. first_listing evs = Some (Inr contents)
             \<and> scan contents ([], []) = Inr (fs, q)
             \<and> paths (self (run rcv evs init)) = Object_keys fs)
        \<and> (paths (self (run rcv evs init)) = []
           \<or> continued (run rcv evs init) \<and> conversion (run rcv evs init) = Some (Resolved ())))"
proof (cases "first_listing evs")
  case None
  then have "run rcv evs init = init" by (rule run_no_listing)
  then show ?thesis by (simp add: init_def new_Files_def)
next
  case (Some reply)
  let ?c1 = "listObjectsV2_callback reply (init\<lparr>listed := True\<rparr>)"
  from Some obtain post where run: "run rcv evs init = run rcv post ?c1"
    using run_first_listing by blast
  have i1: "invariant ?c1"
    using inv_step [OF inv_init, of rcv "ListObjects reply"]
    by (simp del: step.simps add: step_init_listing)
  have l1: "listed ?c1" by (rule listing_listed)
  note frame = run_listed_frame [OF i1 l1, of rcv post, folded run]
  have inv: "invariant (run rcv evs init)" by (rule inv_run_init)
  have l: "listed (run rcv evs init)" unfolding run using l1 by (rule listed_run)
  have first: "conversion (run rcv evs init) \<noteq> None \<longrightarrow>
      (\<exists>contents fs q p. first_listing evs = Some (Inr contents)
         \<and> scan contents ([], []) = Inr (fs, q)
         \<and> paths (self (run rcv evs init)) = Object_keys fs
         \<and> convertMissingToMP3s (post_scan fs) = Inr (p, converter (run rcv evs init))
         \<and> (conversion (run rcv evs init) = Some p \<or> p = Pending))"
  proof
    assume "conversion (run rcv evs init) \<noteq> None"
    with frame have "conversion ?c1 \<noteq> None" by auto
    then obtain contents fs q p where "reply = Inr contents"
      and "scan contents ([], []) = Inr (fs, q)" and "paths (self ?c1) = Object_keys fs"
      and "convertMissingToMP3s (post_scan fs) = Inr (p, converter ?c1)"
      and "conversion ?c1 = Some p"
      using listing_started by blast
    with frame Some show "\<exists>contents fs q p. first_listing evs = Some (Inr contents)
         \<and> scan contents ([], []) = Inr (fs, q)
         \<and> paths (self (run rcv evs init)) = Object_keys fs
         \<and> convertMissingToMP3s (post_scan fs) = Inr (p, converter (run rcv evs init))
         \<and> (conversion (run rcv evs init) = Some p \<or> p = Pending)"
      by (intro exI [of _ contents] exI [of _ fs] exI [of _ q] exI [of _ p]) auto
  qed
  have second: "initialized (self (run rcv evs init)) \<longrightarrow>
        (\<exists>contents fs q. first_listing evs = Some (Inr contents)
             \<and> scan contents ([], []) = Inr (fs, q)
             \<and> paths (self (run rcv evs init)) = Object_keys fs)"
  proof
    assume "initialized (self (run rcv evs init))"
    with frame have "initialized (self ?c1) \<or> conversion ?c1 \<noteq> None" by auto
    then have "\<exists>contents fs q. reply = Inr contents \<and> scan contents ([], []) = Inr (fs, q)
       \<and> paths (self ?c1) = Object_keys fs"
      using listing_initialized [of reply] listing_started [of reply] by blast
    with frame Some show "\<exists>contents fs q. first_listing evs = Some (Inr contents)
             \<and> scan contents ([], []) = Inr (fs, q)
             \<and> paths (self (run rcv evs init)) = Object_keys fs"
      by auto
  qed
  from inv l have third: "initialized (self (run rcv evs init)) \<longrightarrow>
      paths (self (run rcv evs init)) = []
      \<or> continued (run rcv evs init) \<and> conversion (run rcv evs init) = Some (Resolved ())"
    by (simp add: invariant_def) blast
  from first second third l show ?thesis by blast
qed

text \<open>
  A run that satisfies the premises: one \<open>.mp3\<close> object is listed and the
  continuation runs.
\<close>

theorem init_stage_order_witness:
  "conversion (run S3_response [ListObjects (Inr [''a.mp3'']), Then] init) \<noteq> None
   \<and> initialized (self (run S3_response [ListObjects (Inr [''a.mp3'']), Then] init))
   \<and> listed (run S3_response [ListObjects (Inr [''a.mp3'']), Then] init)
   \<and> paths (self (run S3_response [ListObjects (Inr [''a.mp3'']), Then] init)) = [''a'']
   \<and> continued (run S3_response [ListObjects (Inr [''a.mp3'']), Then] init)
   \<and> conversion (run S3_response [ListObjects (Inr [''a.mp3'']), Then] init) = Some (Resolved ())"
proof -
  let ?c = "run S3_response [ListObjects (Inr [''a.mp3'']), Then] init"
  have c: "conversion ?c = Some (Resolved ())" by (simp add: eval_defs)
  then have n: "conversion ?c \<noteq> None" by simp
  have i: "initialized (self ?c)" by (simp add: eval_defs)
  have p: "paths (self ?c) = [''a'']" by (simp add: eval_defs)
  have k: "continued ?c" by (simp add: eval_defs)
  note t = init_stage_order [of S3_response "[ListObjects (Inr [''a.mp3'']), Then]"]
  have l: "listed ?c" by (rule t [THEN conjunct2, THEN mp, OF i, THEN conjunct1])
  show ?thesis by (intro conjI n i l p k c)
qed

text \<open>
  C2, as the claim states it, fails. The callback of the listing calls
  \<open>convertMissingToMP3s\<close> right after its loop: for the listing \<open>a.txt\<close>, \<open>a.ogg\<close> the
  conversion job is pushed while the transcript item is still waiting for its reply.
  For the listing \<open>a.txt\<close>, \<open>a.mp3\<close> nothing is missing, the conversion promise is
  resolved at once, and the instance is initialized while the transcript item is
  still waiting.
\<close>

theorem normalization_before_transcripts_counterexample:
  "conversion (run S3_response [ListObjects (Inr [''a.txt'', ''a.ogg''])] init) = Some Pending
   \<and> converter (run S3_response [ListObjects (Inr [''a.txt'', ''a.ogg''])] init)
       = Some [\<lparr>source_glob = ''a'', source_ext = ''.ogg''\<rparr>]
   \<and> loader (run S3_response [ListObjects (Inr [''a.txt'', ''a.ogg''])] init)
       = [\<lparr>item_path = ''a.txt'', item_glob = ''a''\<rparr>]
   \<and> initialized (self (run S3_response [ListObjects (Inr [''a.txt'', ''a.mp3'']), Then] init))
   \<and> loader (run S3_response [ListObjects (Inr [''a.txt'', ''a.mp3'']), Then] init)
       = [\<lparr>item_path = ''a.txt'', item_glob = ''a''\<rparr>]"
  by (simp add: eval_defs)

subsection \<open>The transcript worker\<close>

text \<open>
  C3. The claim has the worker store the fetched text in the catalog entry of the
  glob. The callback of \<open>getObject\<close> in \<open>process\<close> is a \<open>function\<close> expression, so
  \<open>this.files\<close> is read on the response object of the S3 client and is \<open>undefined\<close>:
  on a successful fetch the callback throws, the catalog is unchanged and \<open>cb\<close> is
  never called. After the listing \<open>a.txt\<close>, \<open>a.mp3\<close> and the successful fetch of
  \<open>a.txt\<close> the sentence of \<open>a\<close> is still \<open>null\<close>. With the instance as receiver (an
  arrow function) the sentence would be stored, see \<open>process_callback_on_instance\<close>.
\<close>

theorem process_leaves_sentence_unset:
  "process data (Inr body) this = (Throw TypeError, this)
   \<and> files (self (run S3_response [ListObjects (Inr [''a.txt'', ''a.mp3'']),
          GetObject_sentence \<lparr>item_path = ''a.txt'', item_glob = ''a''\<rparr> (Inr (Buffer ''hello''))] init))
       = [(''a'', \<lparr>sentence = Null, exts = [''.mp3'']\<rparr>)]"
  by (simp add: eval_defs)

subsection \<open>\<open>getRandomClip\<close>\<close>

text \<open>
  C4. Before the instance is initialized \<open>getRandomClip\<close> returns a promise rejected
  with \<open>Files not init.\<close>; on an initialized instance with an empty list of mp3s it
  returns a promise rejected with \<open>No files.\<close>; in both cases nothing is thrown
  (the result is \<open>Inr\<close>). In every run of \<open>init\<close> the instance is initialized exactly
  when the promise of \<open>init\<close> is resolved.
\<close>

theorem getRandomClip_rejections:
  "(\<not> initialized this \<longrightarrow>
      getRandomClip random this = (Inr (Rejected ''Files not init.''), this))
   \<and> (initialized this \<and> mp3s this = [] \<longrightarrow>
      getRandomClip random this = (Inr (Rejected ''No files.''), this))
   \<and> (initialized (self (run rcv evs init)) \<longleftrightarrow> init_promise (run rcv evs init) = Resolved ())"
  using inv_run_init [of rcv evs] by (simp add: getRandomClip_def invariant_def)

text \<open>
  Both premises are met: by the new instance, and by the instance after a listing
  that holds only a directory marker.
\<close>

theorem getRandomClip_rejections_witness:
  "\<not> initialized (self (run S3_response [] init))
   \<and> getRandomClip \<lparr>mantissa = 1, exponent = 1\<rparr> (self (run S3_response [] init))
       = (Inr (Rejected ''Files not init.''), self (run S3_response [] init))
   \<and> initialized (self (run S3_response [ListObjects (Inr [''dir/''])] init))
   \<and> mp3s (self (run S3_response [ListObjects (Inr [''dir/''])] init)) = []
   \<and> getRandomClip \<lparr>mantissa = 1, exponent = 1\<rparr> (self (run S3_response [ListObjects (Inr [''dir/''])] init))
       = (Inr (Rejected ''No files.''), self (run S3_response [ListObjects (Inr [''dir/''])] init))"
  using getRandomClip_rejections
      [of "self (run S3_response [] init)" "\<lparr>mantissa = 1, exponent = 1\<rparr>" S3_response "[]"]
    getRandomClip_rejections
      [of "self (run S3_response [ListObjects (Inr [''dir/''])] init)"
          "\<lparr>mantissa = 1, exponent = 1\<rparr>" S3_response "[]"]
  by (simp add: eval_defs)

text \<open>
  C10. \<open>getRandomClip\<close> leaves the instance as it is, whatever it returns: the flag,
  the catalog, the paths and the list of mp3s are unchanged.
\<close>

theorem getRandomClip_leaves_state:
  "snd (getRandomClip random this) = this
   \<and> initialized (snd (getRandomClip random this)) = initialized this
   \<and> files (snd (getRandomClip random this)) = files this
   \<and> paths (snd (getRandomClip random this)) = paths this
   \<and> mp3s (snd (getRandomClip random this)) = mp3s this"
  by (simp add: getRandomClip_def Let_def split: property.split)

text \<open>
  C5. On an initialized instance of a run of \<open>init\<close> with a non-empty list of mp3s,
  and for \<open>Math.random()\<close> any double in \<open>[0, 1)\<close>, \<open>getRandomClip\<close> resolves with the
  pair of \<open>glob + '.mp3'\<close> and the sentence of that glob, for a glob of the list of
  mp3s that is also one of the paths and a key of the catalog. The sentence may be
  \<open>null\<close>.
\<close>

theorem getRandomClip_resolves:
  assumes "initialized (self (run rcv evs init))" and "mp3s (self (run rcv evs init)) \<noteq> []"
    and "mantissa random < 2 ^ 53" and "mantissa random < 2 ^ exponent random"
  shows "\<exists>glob i. glob \<in> set (mp3s (self (run rcv evs init)))
           \<and> glob \<in> set (paths (self (run rcv evs init)))
           \<and> get_prop (files (self (run rcv evs init))) glob = Own i
           \<and> getRandomClip random (self (run rcv evs init))
               = (Inr (Resolved (glob @ ''.mp3'', sentence i)), self (run rcv evs init))"
proof -
  define this where "this = self (run rcv evs init)"
  define n where "n = floor_product random (length (mp3s this))"
  define glob where "glob = mp3s this ! n"
  have i: "invariant (run rcv evs init)" by (rule inv_run_init)
  from assms(2) have "0 < length (mp3s this)" by (simp add: this_def)
  with assms(3,4) have n: "n < length (mp3s this)"
    unfolding n_def by (rule floor_product_less)
  then have mem: "glob \<in> set (mp3s this)" unfolding glob_def by (rule nth_mem)
  from i have "set (mp3s this) \<subseteq> set (paths this)" by (simp add: invariant_def this_def)
  with mem have path: "glob \<in> set (paths this)" by (rule subsetD [rotated])
  from i have "set (paths this) \<subseteq> fst ` set (files this)" by (simp add: invariant_def this_def)
  with path have "glob \<in> fst ` set (files this)" by (rule subsetD [rotated])
  then obtain i where own: "get_prop (files this) glob = Own i"
    using get_prop_key by blast
  from assms(1,2) n [unfolded n_def] own [unfolded glob_def n_def]
  have "getRandomClip random this = (Inr (Resolved (glob @ ''.mp3'', sentence i)), this)"
    by (simp add: getRandomClip_def this_def [symmetric] glob_def n_def MP3_EXT_def Let_def)
  with mem path own show ?thesis unfolding this_def by blast
qed

text \<open>
  A run that satisfies the premises, with two canonical globs and the random number
  one half; the sentence returned is \<open>null\<close>.
\<close>

theorem getRandomClip_resolves_witness:
  "initialized (self (run S3_response [ListObjects (Inr [''a.mp3'', ''b.mp3'']), Then] init))
   \<and> mp3s (self (run S3_response [ListObjects (Inr [''a.mp3'', ''b.mp3'']), Then] init)) = [''a'', ''b'']
   \<and> mantissa \<lparr>mantissa = 1, exponent = 1\<rparr> < 2 ^ 53
   \<and> mantissa \<lparr>mantissa = 1, exponent = 1\<rparr> < 2 ^ exponent \<lparr>mantissa = 1, exponent = 1\<rparr>
   \<and> getRandomClip \<lparr>mantissa = 1, exponent = 1\<rparr>
         (self (run S3_response [ListObjects (Inr [''a.mp3'', ''b.mp3'']), Then] init))
       = (Inr (Resolved (''b.mp3'', Null)),
          self (run S3_response [ListObjects (Inr [''a.mp3'', ''b.mp3'']), Then] init))"
proof -
  let ?c = "run S3_response [ListObjects (Inr [''a.mp3'', ''b.mp3'']), Then] init"
  let ?r = "\<lparr>mantissa = 1, exponent = 1\<rparr>"
  have s: "self ?c = \<lparr>initialized = True,
      files = [(''a'', \<lparr>sentence = Null, exts = [''.mp3'']\<rparr>),
               (''b'', \<lparr>sentence = Null, exts = [''.mp3'']\<rparr>)],
      paths = [''a'', ''b''], mp3s = [''a'', ''b'']\<rparr>"
    by (simp add: eval_defs)
  have i: "initialized (self ?c)" by (subst s) simp
  have m: "mp3s (self ?c) = [''a'', ''b'']" by (subst s) simp
  have ne: "mp3s (self ?c) \<noteq> []" by (subst s) simp
  have m1: "mantissa ?r < 2 ^ 53" and m2: "mantissa ?r < 2 ^ exponent ?r" by simp_all
  have "floor_product ?r 2 = 1" by (simp add: double_defs)
  then have f: "floor_product \<lparr>mantissa = Suc 0, exponent = Suc 0\<rparr> (Suc (Suc 0)) = Suc 0"
    by (simp add: numeral_2_eq_2)
  have g: "getRandomClip ?r (self ?c) = (Inr (Resolved (''b.mp3'', Null)), self ?c)"
    unfolding s by (simp add: getRandomClip_def f Let_def get_prop_def MP3_EXT_def)
  show ?thesis
    using getRandomClip_resolves [OF i ne m1 m2] by (intro conjI i m m1 m2 g)
qed

subsection \<open>The canonical list\<close>

text \<open>
  C6. When the paths are keys of the catalog (as they are in every run of \<open>init\<close>, by
  the invariant), \<open>generateMP3List\<close> returns, leaves the catalog and the paths as they
  are, and a glob is in the new list of mp3s if and only if it is one of the paths and
  its extensions contain \<open>.mp3\<close>.
\<close>

theorem generateMP3List_canonical:
  assumes "set (paths this) \<subseteq> fst ` set (files this)"
  shows "\<exists>this'. generateMP3List this = Inr this'
           \<and> files this' = files this \<and> paths this' = paths this
           \<and> initialized this' = initialized this
           \<and> (\<forall>glob. glob \<in> set (mp3s this') \<longleftrightarrow>
                 glob \<in> set (paths this) \<and> MP3_EXT \<in> set (exts_of (files this) glob))"
  using generateMP3List_filter [OF assms] by (simp add: has_mp3_def)

text \<open>
  An instance that satisfies the premise: \<open>a\<close> has an \<open>.mp3\<close> and is listed, \<open>b\<close> has
  none and is not.
\<close>

theorem generateMP3List_canonical_witness:
  "set (paths \<lparr>initialized = False,
         files = [(''a'', \<lparr>sentence = Null, exts = [''.ogg'', ''.mp3'']\<rparr>),
                  (''b'', \<lparr>sentence = Null, exts = [''.ogg'']\<rparr>)],
         paths = [''a'', ''b''], mp3s = []\<rparr>)
     \<subseteq> fst ` set (files \<lparr>initialized = False,
         files = [(''a'', \<lparr>sentence = Null, exts = [''.ogg'', ''.mp3'']\<rparr>),
                  (''b'', \<lparr>sentence = Null, exts = [''.ogg'']\<rparr>)],
         paths = [''a'', ''b''], mp3s = []\<rparr>)
   \<and> generateMP3List \<lparr>initialized = False,
         files = [(''a'', \<lparr>sentence = Null, exts = [''.ogg'', ''.mp3'']\<rparr>),
                  (''b'', \<lparr>sentence = Null, exts = [''.ogg'']\<rparr>)],
         paths = [''a'', ''b''], mp3s = []\<rparr>
       = Inr \<lparr>initialized = False,
         files = [(''a'', \<lparr>sentence = Null, exts = [''.ogg'', ''.mp3'']\<rparr>),
                  (''b'', \<lparr>sentence = Null, exts = [''.ogg'']\<rparr>)],
         paths = [''a'', ''b''], mp3s = [''a'']\<rparr>"
  using generateMP3List_canonical [of "\<lparr>initialized = False,
         files = [(''a'', \<lparr>sentence = Null, exts = [''.ogg'', ''.mp3'']\<rparr>),
                  (''b'', \<lparr>sentence = Null, exts = [''.ogg'']\<rparr>)],
         paths = [''a'', ''b''], mp3s = []\<rparr>"]
  by (simp add: eval_defs)

subsection \<open>The extensions of a recording\<close>

text \<open>
  C8, as the claim states it, fails: \<open>exts\<close> is an array and the scan pushes the
  extension of every key without looking whether it is there. The keys \<open>a.OGG\<close> and
  \<open>a.ogg\<close> have the same glob and the same lower-cased extension; so have the keys
  \<open>clip.v1.ogg\<close> and \<open>clip.v2.ogg\<close>, whose glob is cut at the first \<open>.\<close>. In both
  listings the extension \<open>.ogg\<close> is stored twice.
\<close>

theorem encodings_duplicate_counterexample:
  "exts_of (files (self (run S3_response [ListObjects (Inr [''a.OGG'', ''a.ogg''])] init))) ''a''
     = [''.ogg'', ''.ogg'']
   \<and> \<not> distinct (exts_of
         (files (self (run S3_response [ListObjects (Inr [''a.OGG'', ''a.ogg''])] init))) ''a'')
   \<and> exts_of (files (self (run S3_response [ListObjects (Inr [''clip.v1.ogg'', ''clip.v2.ogg''])] init)))
         ''clip''
     = [''.ogg'', ''.ogg'']
   \<and> \<not> distinct (exts_of
         (files (self (run S3_response [ListObjects (Inr [''clip.v1.ogg'', ''clip.v2.ogg''])] init))) ''clip'')"
  by (simp add: eval_defs exts_of_def)

text \<open>
  C8, as the code has it. When no listed key has a glob that is a property of
  \<open>Object.prototype\<close> (on such a key the scan throws), then after the scan of the
  listing the extensions of a glob are the extensions of the listed keys with that
  glob that are not transcripts, in the order of the listing and with their
  repetitions. So they are free of duplicates exactly when the listing yields no
  extension twice for the glob.
\<close>

theorem encodings_follow_listing:
  assumes "\<forall>key\<in>set contents. getGlob key \<notin> set Object_prototype"
  shows "exts_of (files (self (run rcv [ListObjects (Inr contents)] init))) glob
     = map getFileExt
         (filter (\<lambda>key. getGlob key = glob \<and> glob \<noteq> [] \<and> getFileExt key \<noteq> ''.txt'')
            contents)"
proof -
  from assms obtain fs q where scan: "scan contents ([], []) = Inr (fs, q)"
    using scan_returns by blast
  then have "files (self (listObjectsV2_callback (Inr contents) (init\<lparr>listed := True\<rparr>))) = fs"
    by (rule listing_files)
  then have "files (self (run rcv [ListObjects (Inr contents)] init)) = fs"
    by (simp add: init_def)
  moreover from scan have "exts_of fs glob = exts_of [] glob
     @ map getFileExt
         (filter (\<lambda>key. getGlob key = glob \<and> glob \<noteq> [] \<and> getFileExt key \<noteq> ''.txt'')
            contents)"
    by (rule scan_exts)
  ultimately show ?thesis by (simp add: exts_of_def)
qed

text \<open>
  The listing of the specification's scenario satisfies the premise.
\<close>

theorem encodings_follow_listing_witness:
  "getGlob ''a.ogg'' \<notin> set Object_prototype
   \<and> getGlob ''a.txt'' \<notin> set Object_prototype
   \<and> getGlob ''b.m4a'' \<notin> set Object_prototype
   \<and> getGlob ''b.mp3'' \<notin> set Object_prototype
   \<and> getGlob ''c.wav'' \<notin> set Object_prototype
   \<and> exts_of (files (self (run S3_response
         [ListObjects (Inr [''a.ogg'', ''a.txt'', ''b.m4a'', ''b.mp3'', ''c.wav''])] init))) ''b''
       = [''.m4a'', ''.mp3'']"
proof -
  have h: "\<forall>key\<in>set [''a.ogg'', ''a.txt'', ''b.m4a'', ''b.mp3'', ''c.wav''].
      getGlob key \<notin> set Object_prototype"
    by (simp add: eval_defs)
  have "exts_of (files (self (run S3_response
         [ListObjects (Inr [''a.ogg'', ''a.txt'', ''b.m4a'', ''b.mp3'', ''c.wav''])] init))) ''b''
       = [''.m4a'', ''.mp3'']"
    using encodings_follow_listing [OF h, of S3_response "''b''"]
    by (simp add: eval_defs)
  with h show ?thesis by simp
qed

subsection \<open>The source extension of a conversion\<close>

text \<open>
  C9, as the claim states it, fails: the loop goes through the extensions of the
  recording in their stored order, which is the order of the listing, and takes the
  first that is in the allow-list; the order of the allow-list plays no part. A
  recording listed as \<open>a.m4a\<close>, \<open>a.ogg\<close> is converted from \<open>.m4a\<close>, where the priority
  order \<open>.ogg\<close> before \<open>.m4a\<close> gives \<open>.ogg\<close>.
\<close>

theorem source_extension_counterexample:
  "convertable_ext [''.m4a'', ''.ogg''] = Some ''.m4a''
   \<and> priority_ext [''.m4a'', ''.ogg''] = Some ''.ogg''
   \<and> converter (run S3_response [ListObjects (Inr [''a.m4a'', ''a.ogg''])] init)
       = Some [\<lparr>source_glob = ''a'', source_ext = ''.m4a''\<rparr>]"
  by (simp add: eval_defs priority_ext_def)

text \<open>
  C9, as the code has it. The loop returns the first extension of the recording, in
  stored order, that belongs to the allow-list. When the paths are keys of the
  catalog, the missing globs are the paths without \<open>.mp3\<close>; when there are none the
  promise is resolved at once, and otherwise the queue holds, in the order of the
  missing globs, one job for every missing glob that has a convertible extension, with
  that first extension as source, and no job for a glob that has none.
\<close>

theorem source_extension_first_convertable:
  assumes "set (paths this) \<subseteq> fst ` set (files this)"
  shows "convertable_ext es = find (\<lambda>e. e \<in> set CONVERTABLE_EXTS) es
   \<and> getMissingMP3s this = Inr (filter (\<lambda>glob. \<not> has_mp3 (files this) glob) (paths this))
   \<and> convertMissingToMP3s this
       = Inr (if filter (\<lambda>glob. \<not> has_mp3 (files this) glob) (paths this) = []
              then (Resolved (), None)
              else (Pending,
                    Some (List.map_filter (job_for (files this))
                            (filter (\<lambda>glob. \<not> has_mp3 (files this) glob) (paths this)))))"
proof -
  let ?missing = "filter (\<lambda>glob. \<not> has_mp3 (files this) glob) (paths this)"
  have m: "getMissingMP3s this = Inr ?missing"
    using getMissingMP3s_forEach_filter [OF assms, of "[]"] by (simp add: getMissingMP3s_def)
  have "set ?missing \<subseteq> fst ` set (files this)" using assms by auto
  then have "push_jobs (files this) ?missing [] = Inr ([] @ List.map_filter (job_for (files this)) ?missing)"
    by (rule push_jobs_map_filter)
  with m show ?thesis
    by (simp add: convertMissingToMP3s_def convertable_ext_find)
qed

text \<open>
  An instance that satisfies the premise: \<open>a\<close> is converted from its first convertible
  extension, \<open>b\<close> is not missing, \<open>c\<close> has no convertible extension and gets no job.
\<close>

theorem source_extension_first_convertable_witness:
  "set (paths \<lparr>initialized = False,
         files = [(''a'', \<lparr>sentence = Null, exts = [''.m4a'', ''.ogg'']\<rparr>),
                  (''b'', \<lparr>sentence = Null, exts = [''.mp3'']\<rparr>),
                  (''c'', \<lparr>sentence = Null, exts = [''.wav'']\<rparr>)],
         paths = [''a'', ''b'', ''c''], mp3s = []\<rparr>)
     \<subseteq> fst ` set (files \<lparr>initialized = False,
         files = [(''a'', \<lparr>sentence = Null, exts = [''.m4a'', ''.ogg'']\<rparr>),
                  (''b'', \<lparr>sentence = Null, exts = [''.mp3'']\<rparr>),
                  (''c'', \<lparr>sentence = Null, exts = [''.wav'']\<rparr>)],
         paths = [''a'', ''b'', ''c''], mp3s = []\<rparr>)
   \<and> convertMissingToMP3s \<lparr>initialized = False,
         files = [(''a'', \<lparr>sentence = Null, exts = [''.m4a'', ''.ogg'']\<rparr>),
                  (''b'', \<lparr>sentence = Null, exts = [''.mp3'']\<rparr>),
                  (''c'', \<lparr>sentence = Null, exts = [''.wav'']\<rparr>)],
         paths = [''a'', ''b'', ''c''], mp3s = []\<rparr>
       = Inr (Pending, Some [\<lparr>source_glob = ''a'', source_ext = ''.m4a''\<rparr>])"
proof -
  let ?W = "\<lparr>initialized = False,
         files = [(''a'', \<lparr>sentence = Null, exts = [''.m4a'', ''.ogg'']\<rparr>),
                  (''b'', \<lparr>sentence = Null, exts = [''.mp3'']\<rparr>),
                  (''c'', \<lparr>sentence = Null, exts = [''.wav'']\<rparr>)],
         paths = [''a'', ''b'', ''c''], mp3s = []\<rparr>"
  have h: "set (paths ?W) \<subseteq> fst ` set (files ?W)" by simp
  have m: "filter (\<lambda>glob. \<not> has_mp3 (files ?W) glob) (paths ?W) = [''a'', ''c'']"
    by (simp add: has_mp3_def exts_of_def MP3_EXT_def)
  have j: "List.map_filter (job_for (files ?W)) [''a'', ''c'']
      = [\<lparr>source_glob = ''a'', source_ext = ''.m4a''\<rparr>]"
    by (simp add: job_for_def exts_of_def CONVERTABLE_EXTS_def List.map_filter_simps)
  from source_extension_first_convertable [OF h, of "[]"]
  have "convertMissingToMP3s ?W
      = Inr (if filter (\<lambda>glob. \<not> has_mp3 (files ?W) glob) (paths ?W) = []
              then (Resolved (), None)
              else (Pending,
                    Some (List.map_filter (job_for (files ?W))
                            (filter (\<lambda>glob. \<not> has_mp3 (files ?W) glob) (paths ?W)))))"
    by (rule conjunct2 [THEN conjunct2])
  then have "convertMissingToMP3s ?W
      = Inr (Pending, Some [\<lparr>source_glob = ''a'', source_ext = ''.m4a''\<rparr>])"
    unfolding m j by simp
  with h show ?thesis by (rule conjI)
qed

end
